theory Spec2Isabelle
  imports Main "HOL-Library.Word"
begin

section \<open>The master process of the simulation runner (src/cmd/MainSA.cpp)\<close>

text \<open>
  The file holds \<open>main\<close>, \<open>executeSimulation\<close>, \<open>startReplicate\<close> and
  \<open>popNextFinishedReplicate\<close>. The collaborators they call (the resource allocator, the
  replicate runners, the signal handler, the simulation file) live in other files; what
  they answer is taken as an input of the model, one answer per call.
\<close>

subsection \<open>Exceptions and log lines\<close>

datatype exn =
    SetupFailure            \<comment> \<open>thrown by a collaborator before the capacity check\<close>
  | InvalidConfiguration    \<comment> \<open>"Invalid configuration, no replicates can be processed."\<close>
  | LoadFailure             \<comment> \<open>thrown while the parameters and models are read\<close>
  | OutOfRange              \<comment> \<open>std::out\_of\_range of std::string::substr\<close>
  | StartFailure            \<comment> \<open>thrown inside startReplicate\<close>
  | SleepFailed             \<comment> \<open>"Sleep failed."\<close>
  | CommandLineArgument     \<comment> \<open>"unknown function."\<close>

datatype log_line =
    Warning_Malformed string          \<comment> \<open>Malformed parameter setting "\%s"\<close>
  | Info_Setting string string        \<comment> \<open>Setting simulation parameter "\%s" = "\%s"\<close>

subsection \<open>Command-line parameter overrides (lines 249--266)\<close>

text \<open>
  \<open>std::string::find("=")\<close>: the index of the first \<open>=\<close>, or \<open>npos\<close> (here \<open>None\<close>).
\<close>

fun find_eq :: "string \<Rightarrow> nat option" where
  "find_eq [] = None"
| "find_eq (c # cs) =
     (if c = CHR ''='' then Some 0
      else (case find_eq cs of None \<Rightarrow> None | Some i \<Rightarrow> Some (Suc i)))"

text \<open>
  \<open>std::string::substr(pos, n)\<close> throws \<open>std::out_of_range\<close> when \<open>pos\<close> is beyond
  the size of the string; \<open>n = None\<close> stands for the default \<open>npos\<close> (to the end).
\<close>

definition substr :: "string \<Rightarrow> nat \<Rightarrow> nat option \<Rightarrow> exn + string" where
  "substr s pos n =
     (if length s < pos then Inl OutOfRange
      else Inr (case n of None \<Rightarrow> drop pos s | Some k \<Rightarrow> take k (drop pos s)))"

type_synonym parameters = "string \<rightharpoonup> string"

text \<open>The body of the loop over \<open>cmdline_parameters\<close>, for one token.\<close>

definition inject_parameter ::
  "parameters \<times> log_line list \<Rightarrow> string \<Rightarrow> exn + (parameters \<times> log_line list)" where
  "inject_parameter st tok =
     (case st of (simulationParameters, lg) \<Rightarrow>
       (case find_eq tok of
          None \<Rightarrow> Inr (simulationParameters, lg @ [Warning_Malformed tok])
        | Some eqpos \<Rightarrow>
            (case substr tok 0 (Some eqpos) of
               Inl e \<Rightarrow> Inl e
             | Inr k \<Rightarrow>
                 (case substr tok (eqpos + 1) None of
                    Inl e \<Rightarrow> Inl e
                  | Inr v \<Rightarrow>
                      Inr (simulationParameters(k \<mapsto> v), lg @ [Info_Setting k v])))))"

text \<open>The loop: the tokens in argument order; an exception ends it.\<close>

fun inject_parameters ::
  "parameters \<times> log_line list \<Rightarrow> string list \<Rightarrow> exn + (parameters \<times> log_line list)" where
  "inject_parameters st [] = Inr st"
| "inject_parameters st (tok # toks) =
     (case inject_parameter st tok of
        Inl e \<Rightarrow> Inl e
      | Inr st' \<Rightarrow> inject_parameters st' toks)"

text \<open>
  The specification's reading of an override list, to compare with the loop: a token is
  well formed when it holds a \<open>=\<close>; its key is the text before the first \<open>=\<close> and its
  value the text after it; the file's map is overridden by the well-formed pairs in
  argument order.
\<close>

definition well_formed :: "string \<Rightarrow> bool" where
  "well_formed tok = (CHR ''='' \<in> set tok)"

definition key_of :: "string \<Rightarrow> string" where
  "key_of tok = takeWhile (\<lambda>c. c \<noteq> CHR ''='') tok"

definition value_of :: "string \<Rightarrow> string" where
  "value_of tok = tl (dropWhile (\<lambda>c. c \<noteq> CHR ''='') tok)"

fun spec_overrides :: "parameters \<Rightarrow> string list \<Rightarrow> parameters" where
  "spec_overrides m [] = m"
| "spec_overrides m (tok # toks) =
     spec_overrides (if well_formed tok then m(key_of tok \<mapsto> value_of tok) else m) toks"

text \<open>The value the last well-formed override of key \<open>k\<close> gives it, if there is one.\<close>

definition last_override :: "string \<Rightarrow> string list \<Rightarrow> string option" where
  "last_override k toks =
     (case filter (\<lambda>tok. well_formed tok \<and> key_of tok = k) toks of
        [] \<Rightarrow> None
      | t # ts \<Rightarrow> Some (value_of (last (t # ts))))"

text \<open>The log line each token leaves, by the same reading.\<close>

definition override_log :: "string list \<Rightarrow> log_line list" where
  "override_log toks =
     map (\<lambda>tok. if well_formed tok then Info_Setting (key_of tok) (value_of tok)
                else Warning_Malformed tok) toks"

subsection \<open>The inputs of the master process\<close>

text \<open>
  The globals that \<open>parseArguments\<close> fills (cmd/common.h), together with the two values
  read once from collaborators: the map of \<open>file->getParameters()\<close> and the number that
  \<open>resourceAllocator.getMaxSimultaneousReplicates()\<close> returns (an \<open>int\<close>).
\<close>

record config =
  functionOption :: string
  replicates :: "int list"
  cmdline_parameters :: "string list"
  getParameters :: parameters
  getMaxSimultaneousReplicates :: int

text \<open>
  What the rest of the process answers while the master runs. The master observes it
  one call at a time; the argument of type \<open>nat\<close> is the number of observations made so
  far, so that two reads of the same flag or two polls of the same runner may differ.
\<close>

record environment =
  globalAbort :: "nat \<Rightarrow> bool"                  \<comment> \<open>the flag of core/Globals.h\<close>
  hasReplicateFinished :: "nat \<Rightarrow> int \<Rightarrow> bool"   \<comment> \<open>the poll of the runner of a replicate\<close>
  getReplicateExitCode :: "int \<Rightarrow> int"           \<comment> \<open>the exit code of a finished replicate\<close>
  startReplicateThrows :: "nat \<Rightarrow> int \<Rightarrow> bool"   \<comment> \<open>assignReplicate or the runner's start throws\<close>
  nanosleepFails :: "nat \<Rightarrow> bool"               \<comment> \<open>nanosleep returned nonzero, errno not EINTR\<close>
  setupThrows :: bool                            \<comment> \<open>lines 189--228 throw\<close>
  loadThrows :: bool                             \<comment> \<open>the reads of the file, lines 249--306, throw\<close>

subsection \<open>The state of the scheduling loop\<close>

datatype event =
    Started int             \<comment> \<open>startReplicate returned the runner of this replicate\<close>
  | Completed int int       \<comment> \<open>"Replicate \%d completed with exit code \%d", then stop and delete\<close>
  | MasterSleeping nat nat  \<comment> \<open>"Master sleeping, waiting for \%d replicates to finish, \%d left to start."\<close>
  | Nanosleep "32 word"     \<comment> \<open>nanosleep for that many nanoseconds (an unsigned int)\<close>
  | StopCheckpointing
  | AbortWorkers
  | StopWorkers
  | FileClosed

text \<open>
  \<open>simulationStatusTable\<close> is a \<open>std::map<int,int>\<close> that the code reads and writes
  through \<open>operator[]\<close> only, which gives a missing key the value 0: a total function
  that is 0 by default. A runner is represented by the replicate it runs
  (\<open>getReplicate()\<close>). The start-time table feeds the duration in a log line only and
  is left out. \<open>clock\<close> counts the observations of the environment; \<open>events\<close> records
  the calls that leave the master.
\<close>

record sched_state =
  clock :: nat
  assignedSimulations :: int
  simulationStatusTable :: "int \<Rightarrow> int"
  runningReplicates :: "int list"
  noopLoopCycles :: "64 word"
  events :: "event list"

definition tick :: "sched_state \<Rightarrow> sched_state" where
  "tick s = s\<lparr>clock := Suc (clock s)\<rparr>"

text \<open>Lines 231--246: the counter, the status of every replicate set to 0, no runner.\<close>

definition initial_state :: "config \<Rightarrow> sched_state" where
  "initial_state cfg =
     \<lparr>clock = 0,
      assignedSimulations = 0,
      simulationStatusTable = foldl (\<lambda>tbl r. tbl(r := 0)) (\<lambda>_. 0) (replicates cfg),
      runningReplicates = [],
      noopLoopCycles = 0,
      events = []\<rparr>"

subsection \<open>popNextFinishedReplicate and startReplicate\<close>

text \<open>
  The runners are polled in list order, one observation each; the first that has
  finished is erased from the list and returned, \<open>None\<close> is the \<open>NULL\<close> of the source.
  The result carries the list and the clock after the call.
\<close>

fun popNextFinishedReplicate ::
  "environment \<Rightarrow> nat \<Rightarrow> int list \<Rightarrow> int option \<times> int list \<times> nat" where
  "popNextFinishedReplicate env t [] = (None, [], t)"
| "popNextFinishedReplicate env t (runner # rs) =
     (if hasReplicateFinished env t runner then (Some runner, rs, Suc t)
      else (case popNextFinishedReplicate env (Suc t) rs of
              (found, rs', t') \<Rightarrow> (found, runner # rs', t')))"

definition startReplicate :: "environment \<Rightarrow> nat \<Rightarrow> int \<Rightarrow> exn + int" where
  "startReplicate env t replicate' =
     (if startReplicateThrows env t replicate' then Inl StartFailure else Inr replicate')"

subsection \<open>The scheduling loop (lines 310--406)\<close>

text \<open>
  The functions of the loop return the states they go through, one per statement, so
  that a property can be stated of every point of a pass. \<open>reap_loop\<close>,
  \<open>start_or_sleep\<close> and \<open>loop_iteration\<close> list the state they are called in first
  and the state they end in last; the two bodies list the states after each of their
  statements.
\<close>

text \<open>
  Lines 321--339, the body of the inner loop for the runner that was popped: \<open>rs\<close> and
  \<open>t\<close> are the list of runners and the clock that popNextFinishedReplicate left.
\<close>

definition reap_body ::
  "environment \<Rightarrow> int \<Rightarrow> int list \<Rightarrow> nat \<Rightarrow> sched_state \<Rightarrow> sched_state list" where
  "reap_body env finishedReplicate rs t s =
     (let s1 = s\<lparr>clock := t, runningReplicates := rs\<rparr>;
          s2 = s1\<lparr>events := events s1 @
                 [Completed finishedReplicate (getReplicateExitCode env finishedReplicate)]\<rparr>;
          s3 = s2\<lparr>assignedSimulations := assignedSimulations s2 - 1\<rparr>;
          s4 = s3\<lparr>simulationStatusTable := (simulationStatusTable s3)(finishedReplicate := 2)\<rparr>;
          s5 = s4\<lparr>noopLoopCycles := 0\<rparr>
      in [s1, s2, s3, s4, s5])"

text \<open>The inner loop, lines 319--340: reap every runner that reports it has finished.\<close>

function reap_loop :: "environment \<Rightarrow> sched_state \<Rightarrow> sched_state list" where
  "reap_loop env s =
     (case popNextFinishedReplicate env (clock s) (runningReplicates s) of
        (None, rs, t) \<Rightarrow> [s, s\<lparr>clock := t\<rparr>]
      | (Some finishedReplicate, rs, t) \<Rightarrow>
          s # reap_body env finishedReplicate rs t s
            @ reap_loop env (last (reap_body env finishedReplicate rs t s)))"
  by pat_completeness auto
termination
proof -
  have shorter: "length rs' < length rs"
    if "popNextFinishedReplicate env t rs = (Some r, rs', t')" for env t rs r rs' t'
    using that by (induction rs arbitrary: t rs') (auto split: if_splits prod.splits)
  show ?thesis
    by (relation "measure (\<lambda>(env, s). length (runningReplicates s))")
       (auto simp: reap_body_def Let_def dest: shorter [OF sym])
qed

text \<open>
  Lines 346--357: the scan for a replicate to start. \<open>replicate'\<close> and \<open>allFinished\<close> are
  the variables \<open>replicate\<close> and \<open>allFinished\<close> of the source, \<open>-1\<close> and \<open>true\<close> before the scan.
\<close>

fun find_simulation :: "int list \<Rightarrow> (int \<Rightarrow> int) \<Rightarrow> int \<Rightarrow> bool \<Rightarrow> int \<times> bool" where
  "find_simulation [] tbl replicate' allFinished = (replicate', allFinished)"
| "find_simulation (r # rs) tbl replicate' allFinished =
     (if tbl r = 0 then (r, False)
      else find_simulation rs tbl replicate' (if tbl r \<noteq> 2 then False else allFinished))"

definition sleepTime :: "64 word \<Rightarrow> 32 word" where
  "sleepTime n =
     (let t = 1000000;
          t = (if 2000 < n then 10000000 else t);
          t = (if 2100 < n then 100000000 else t)
      in t)"

datatype outcome =
    Continue        \<comment> \<open>back to the loop condition\<close>
  | Break           \<comment> \<open>\<open>if (allFinished) break\<close>\<close>
  | AbortSeen       \<comment> \<open>the loop condition read \<open>globalAbort\<close> set\<close>
  | Throw exn       \<comment> \<open>an exception leaves the loop\<close>

declare reap_loop.simps [simp del]

text \<open>Lines 384--404: the sleep of an idle iteration.\<close>

definition sleep :: "config \<Rightarrow> environment \<Rightarrow> sched_state \<Rightarrow> sched_state list \<times> outcome" where
  "sleep cfg env s =
     (let n = noopLoopCycles s;
          s1 = (if 3000 \<le> n \<and> n mod 1000 = 0
                then s\<lparr>events := events s @
                       [MasterSleeping
                          (length (filter (\<lambda>r. simulationStatusTable s r \<noteq> 0
                                                 \<and> simulationStatusTable s r = 1) (replicates cfg)))
                          (length (filter (\<lambda>r. simulationStatusTable s r = 0) (replicates cfg)))]\<rparr>
                else s);
          s2 = (tick s1)\<lparr>events := events s1 @ [Nanosleep (sleepTime n)]\<rparr>
      in if nanosleepFails env (clock s1) then ([s, s1, s2], Throw SleepFailed)
         else ([s, s1, s2], Continue))"

text \<open>Lines 343--405, entered when \<open>noopLoopCycles > 1000\<close>.\<close>

text \<open>Lines 366--380, the statements that start the chosen replicate.\<close>

definition start_body :: "int \<Rightarrow> int \<Rightarrow> sched_state \<Rightarrow> sched_state list" where
  "start_body replicate' runner s =
     (let q1 = (tick s)\<lparr>runningReplicates := runningReplicates s @ [runner],
                        events := events s @ [Started replicate']\<rparr>;
          q2 = q1\<lparr>assignedSimulations := assignedSimulations q1 + 1\<rparr>;
          q3 = q2\<lparr>simulationStatusTable := (simulationStatusTable q2)(replicate' := 1)\<rparr>
      in [q1, q2, q3])"

definition start_or_sleep ::
  "config \<Rightarrow> environment \<Rightarrow> sched_state \<Rightarrow> sched_state list \<times> outcome" where
  "start_or_sleep cfg env s =
     (case find_simulation (replicates cfg) (simulationStatusTable s) (- 1) True of
        (replicate', allFinished) \<Rightarrow>
          if allFinished then ([s], Break)
          else if 0 \<le> replicate' \<and> assignedSimulations s < getMaxSimultaneousReplicates cfg then
            (case startReplicate env (clock s) replicate' of
               Inl e \<Rightarrow> ([s, tick s], Throw e)
             | Inr runner \<Rightarrow> (s # start_body replicate' runner s, Continue))
          else sleep cfg env s)"

text \<open>One pass through the loop, from the evaluation of its condition.\<close>

definition loop_iteration ::
  "config \<Rightarrow> environment \<Rightarrow> sched_state \<Rightarrow> sched_state list \<times> outcome" where
  "loop_iteration cfg env s =
     (if globalAbort env (clock s) then ([s, tick s], AbortSeen)
      else
        (let s1 = (tick s)\<lparr>noopLoopCycles := noopLoopCycles s + 1\<rparr>;
             tr = reap_loop env s1
         in if 1000 < noopLoopCycles (last tr)
            then (case start_or_sleep cfg env (last tr) of (tr', oc) \<Rightarrow> (s # tr @ tr', oc))
            else (s # tr, Continue)))"

text \<open>
  The loop may run for ever (a replicate that never finishes), so it is run for at most
  \<open>fuel\<close> passes: \<open>None\<close> says that it is still running after them.
\<close>

fun scheduling_loop ::
  "nat \<Rightarrow> config \<Rightarrow> environment \<Rightarrow> sched_state \<Rightarrow> (outcome \<times> sched_state) option" where
  "scheduling_loop 0 cfg env s = None"
| "scheduling_loop (Suc fuel) cfg env s =
     (case loop_iteration cfg env s of
        (tr, Continue) \<Rightarrow> scheduling_loop fuel cfg env (last tr)
      | (tr, oc) \<Rightarrow> Some (oc, last tr))"

text \<open>The state in which pass number \<open>n\<close> (from 0) evaluates the loop condition, if the
  loop gets there.\<close>

fun loop_head :: "nat \<Rightarrow> config \<Rightarrow> environment \<Rightarrow> sched_state \<Rightarrow> sched_state option" where
  "loop_head 0 cfg env s = Some s"
| "loop_head (Suc n) cfg env s =
     (case loop_iteration cfg env s of
        (tr, Continue) \<Rightarrow> loop_head n cfg env (last tr)
      | (tr, oc) \<Rightarrow> None)"

subsection \<open>After the loop (lines 408--443), executeSimulation and main\<close>

definition shutdown :: "environment \<Rightarrow> sched_state \<Rightarrow> sched_state" where
  "shutdown env s =
     (let s1 = s\<lparr>events := events s @ [StopCheckpointing]\<rparr>;
          s2 = (if globalAbort env (clock s1)
                then (tick s1)\<lparr>events := events s1 @ [AbortWorkers]\<rparr>
                else (tick s1)\<lparr>events := events s1 @ [StopWorkers]\<rparr>)
      in s2\<lparr>events := events s2 @ [FileClosed]\<rparr>)"

text \<open>
  The loop and what follows it, from a state of the loop. The first component of the
  result is the exception that escapes, if one does.
\<close>

definition run_from ::
  "nat \<Rightarrow> config \<Rightarrow> environment \<Rightarrow> sched_state \<Rightarrow> (exn option \<times> sched_state) option" where
  "run_from fuel cfg env s =
     (case scheduling_loop fuel cfg env s of
        None \<Rightarrow> None
      | Some (Throw e, s') \<Rightarrow> Some (Some e, s')
      | Some (oc, s') \<Rightarrow> Some (None, shutdown env s'))"

definition executeSimulation ::
  "nat \<Rightarrow> config \<Rightarrow> environment \<Rightarrow> (exn option \<times> sched_state) option" where
  "executeSimulation fuel cfg env =
     (if setupThrows env then Some (Some SetupFailure, initial_state cfg)
      else if getMaxSimultaneousReplicates cfg = 0
        then Some (Some InvalidConfiguration, initial_state cfg)
      else if loadThrows env then Some (Some LoadFailure, initial_state cfg)
      else
        (case inject_parameters (getParameters cfg, []) (cmdline_parameters cfg) of
           Inl e \<Rightarrow> Some (Some e, initial_state cfg)
         | Inr simulationParameters \<Rightarrow> run_from fuel cfg env (initial_state cfg)))"

text \<open>
  The \<open>try\<close> block of \<open>main\<close>: the exception it ends with, if any. Every handler falls
  through to \<open>return -1\<close>.
\<close>

definition main_try :: "nat \<Rightarrow> config \<Rightarrow> environment \<Rightarrow> exn option option" where
  "main_try fuel cfg env =
     (if functionOption cfg = ''help'' then Some None
      else if functionOption cfg = ''version'' then Some None
      else if functionOption cfg = ''devices'' then Some None
      else if functionOption cfg = ''simulation''
        then map_option fst (executeSimulation fuel cfg env)
      else Some (Some CommandLineArgument))"

definition main :: "nat \<Rightarrow> config \<Rightarrow> environment \<Rightarrow> int option" where
  "main fuel cfg env =
     (case main_try fuel cfg env of
        None \<Rightarrow> None
      | Some None \<Rightarrow> Some 0
      | Some (Some e) \<Rightarrow> Some (- 1))"

section \<open>Notions used to state the properties\<close>

text \<open>
  The invariant of the loop, at the evaluation of its condition and between two reaps: the
  runners are distinct, the counter is their number, and the replicates with status 1 are
  exactly those that have a runner.
\<close>

definition sched_inv :: "sched_state \<Rightarrow> bool" where
  "sched_inv s =
     (distinct (runningReplicates s)
      \<and> assignedSimulations s = int (length (runningReplicates s))
      \<and> {r. simulationStatusTable s r = 1} = set (runningReplicates s))"

text \<open>
  The bound on the replicates that run, read three ways: the counter, the list of
  runners, and the entries of the status table that are 1.
\<close>

definition within_capacity :: "config \<Rightarrow> sched_state \<Rightarrow> bool" where
  "within_capacity cfg p =
     (assignedSimulations p \<le> getMaxSimultaneousReplicates cfg
      \<and> int (length (runningReplicates p)) \<le> getMaxSimultaneousReplicates cfg
      \<and> int (card {r. simulationStatusTable p r = 1}) \<le> getMaxSimultaneousReplicates cfg)"

text \<open>
  One statement may leave a status as it is, take it from Pending (0) to Running (1), or
  from Running (1) to Finished (2); \<open>forward p q\<close> says so of every replicate, between a
  state \<open>p\<close> and the next state \<open>q\<close>.
\<close>

definition status_forward :: "int \<Rightarrow> int \<Rightarrow> bool" where
  "status_forward a b = (b = a \<or> (a = 0 \<and> b = 1) \<or> (a = 1 \<and> b = 2))"

definition forward :: "sched_state \<Rightarrow> sched_state \<Rightarrow> bool" where
  "forward p q = (\<forall>r. status_forward (simulationStatusTable p r) (simulationStatusTable q r))"

text \<open>The events that state \<open>s'\<close> has and the earlier state \<open>s\<close> has not.\<close>

definition new_events :: "sched_state \<Rightarrow> sched_state \<Rightarrow> event list" where
  "new_events s s' = drop (length (events s)) (events s')"

text \<open>
  The first replicate of the input list whose status is Pending, and the rule that a
  statement of the loop adds at most one event, which, when it is the start of a replicate,
  starts that first pending one.
\<close>

definition first_pending :: "config \<Rightarrow> sched_state \<Rightarrow> int option" where
  "first_pending cfg s = List.find (\<lambda>r. simulationStatusTable s r = 0) (replicates cfg)"

definition start_rule :: "config \<Rightarrow> sched_state \<Rightarrow> sched_state \<Rightarrow> bool" where
  "start_rule cfg p q =
     (events q = events p
      \<or> (\<exists>e. events q = events p @ [e]
            \<and> (case e of Started r \<Rightarrow> first_pending cfg p = Some r | _ \<Rightarrow> True)))"

text \<open>The state without its events: all that the control flow of the loop reads.\<close>

definition ctl :: "sched_state \<Rightarrow> nat \<times> int \<times> (int \<Rightarrow> int) \<times> int list \<times> 64 word" where
  "ctl s = (clock s, assignedSimulations s, simulationStatusTable s, runningReplicates s,
            noopLoopCycles s)"

section \<open>Scenarios\<close>

text \<open>
  The scenario of the specification: three replicates, room for two at a time, and the
  override list with one malformed token. In the quiet environment no replicate ever
  finishes and nothing fails.
\<close>

definition scenario_config :: config where
  "scenario_config =
     \<lparr>functionOption = ''simulation'', replicates = [0, 1, 2],
      cmdline_parameters = [''badtoken'', ''k1=v1''], getParameters = Map.empty,
      getMaxSimultaneousReplicates = 2\<rparr>"

definition quiet_environment :: environment where
  "quiet_environment =
     \<lparr>globalAbort = (\<lambda>t. False), hasReplicateFinished = (\<lambda>t r. False),
      getReplicateExitCode = (\<lambda>r. 0), startReplicateThrows = (\<lambda>t r. False),
      nanosleepFails = (\<lambda>t. False), setupThrows = False, loadThrows = False\<rparr>"

text \<open>The state after 1000 idle passes, and after the two passes that follow them.\<close>

definition idle_1000 :: sched_state where
  "idle_1000 =
     \<lparr>clock = 1000, assignedSimulations = 0, simulationStatusTable = (\<lambda>_. 0),
      runningReplicates = [], noopLoopCycles = 1000, events = []\<rparr>"

definition both_running :: sched_state where
  "both_running =
     \<lparr>clock = 1005, assignedSimulations = 2, simulationStatusTable = (\<lambda>_. 0)(0 := 1, 1 := 1),
      runningReplicates = [0, 1], noopLoopCycles = 1002, events = [Started 0, Started 1]\<rparr>"

text \<open>The flag is set from the observation 1006 on.\<close>

definition aborting_environment :: environment where
  "aborting_environment = quiet_environment\<lparr>globalAbort := (\<lambda>t. 1006 \<le> t)\<rparr>"

text \<open>
  The flag is set from the observation 1001 on: after the loop condition of the pass
  that follows 1000 idle passes has read it, and before that pass starts a replicate.
\<close>

definition late_abort_environment :: environment where
  "late_abort_environment = quiet_environment\<lparr>globalAbort := (\<lambda>t. 1001 \<le> t)\<rparr>"

text \<open>Replicate 0 has finished, 1 is running, 2 is pending.\<close>

definition one_finished :: sched_state where
  "one_finished =
     \<lparr>clock = 4000, assignedSimulations = 1, simulationStatusTable = (\<lambda>_. 0)(0 := 2, 1 := 1),
      runningReplicates = [1], noopLoopCycles = 1500,
      events = [Started 0, Started 1, Completed 0 0]\<rparr>"

text \<open>
  One replicate, which has finished as soon as it is polled, with exit code 3: the state
  after its start, after its reap, and when the loop is left.
\<close>

definition single_config :: config where
  "single_config = scenario_config\<lparr>replicates := [0], getMaxSimultaneousReplicates := 1\<rparr>"

definition failing_environment :: environment where
  "failing_environment =
     quiet_environment\<lparr>hasReplicateFinished := (\<lambda>t r. True), getReplicateExitCode := (\<lambda>r. 3)\<rparr>"

definition single_started :: sched_state where
  "single_started =
     \<lparr>clock = 1002, assignedSimulations = 1, simulationStatusTable = (\<lambda>_. 0)(0 := 1),
      runningReplicates = [0], noopLoopCycles = 1001, events = [Started 0]\<rparr>"

definition single_reaped :: sched_state where
  "single_reaped =
     \<lparr>clock = 1004, assignedSimulations = 0, simulationStatusTable = (\<lambda>_. 0)(0 := 2),
      runningReplicates = [], noopLoopCycles = 0, events = [Started 0, Completed 0 3]\<rparr>"

definition single_done :: sched_state where
  "single_done = single_reaped\<lparr>clock := 2005, noopLoopCycles := 1001\<rparr>"

section \<open>Properties of the parameter overrides\<close>

lemma find_eq_None: "(find_eq tok = None) = (CHR ''='' \<notin> set tok)"
  by (induction tok) (auto split: option.splits)

lemma find_eq_Some:
  "find_eq tok = Some i \<Longrightarrow>
     i < length tok \<and> take i tok = takeWhile (\<lambda>c. c \<noteq> CHR ''='') tok
     \<and> drop (Suc i) tok = tl (dropWhile (\<lambda>c. c \<noteq> CHR ''='') tok)"
  by (induction tok arbitrary: i) (auto split: option.splits if_splits)

lemma inject_parameter_eq:
  "inject_parameter (m, lg) tok =
     Inr (if well_formed tok
          then (m(key_of tok \<mapsto> value_of tok), lg @ [Info_Setting (key_of tok) (value_of tok)])
          else (m, lg @ [Warning_Malformed tok]))"
proof (cases "find_eq tok")
  case None
  then have "\<not> well_formed tok"
    by (simp add: well_formed_def find_eq_None)
  with None show ?thesis
    by (simp add: inject_parameter_def)
next
  case (Some i)
  from find_eq_Some [OF Some] have "i < length tok"
    and "take i tok = key_of tok" and "drop (Suc i) tok = value_of tok"
    by (simp_all add: key_of_def value_of_def)
  moreover from Some have "well_formed tok"
    using find_eq_None [of tok] by (simp add: well_formed_def)
  ultimately show ?thesis
    using Some by (simp add: inject_parameter_def substr_def)
qed

lemma inject_parameters_eq:
  "inject_parameters (m, lg) toks = Inr (spec_overrides m toks, lg @ override_log toks)"
  by (induction toks arbitrary: m lg) (simp_all add: inject_parameter_eq override_log_def)

lemma spec_overrides_skip:
  "\<not> well_formed tok \<Longrightarrow> spec_overrides m (pre @ tok # suf) = spec_overrides m (pre @ suf)"
  by (induction pre arbitrary: m) simp_all

lemma spec_overrides_lookup:
  "spec_overrides m toks k = (case last_override k toks of None \<Rightarrow> m k | Some v \<Rightarrow> Some v)"
proof (induction toks arbitrary: m)
  case Nil
  show ?case by (simp add: last_override_def)
next
  case (Cons tok toks)
  show ?case
    unfolding spec_overrides.simps Cons.IH
    by (auto simp: last_override_def split: list.splits)
qed

text \<open>
  C6. The map the loop leaves is the file's map overridden by the well-formed tokens in
  argument order: a key takes the value of its last well-formed override, and a key that
  no token overrides keeps the value of the file.
\<close>

theorem parameters_overridden_in_order:
  "(\<exists>lg. inject_parameters (fileParameters, []) toks
            = Inr (spec_overrides fileParameters toks, lg))
   \<and> (\<forall>k. spec_overrides fileParameters toks k
            = (case last_override k toks of None \<Rightarrow> fileParameters k | Some v \<Rightarrow> Some v))"
  using inject_parameters_eq [of fileParameters "[]" toks] spec_overrides_lookup
  by simp

text \<open>
  C7. A token without \<open>=\<close> is skipped with a warning: the loop does not throw, the map
  is the one the other tokens alone give, every other token is still applied and logged,
  and the warning for the token stands at its place in the log.
\<close>

theorem malformed_override_skipped:
  assumes "CHR ''='' \<notin> set tok"
  shows "inject_parameters (fileParameters, []) (pre @ tok # suf)
           = Inr (spec_overrides fileParameters (pre @ suf),
                  override_log pre @ Warning_Malformed tok # override_log suf)
         \<and> inject_parameters (fileParameters, []) (pre @ suf)
           = Inr (spec_overrides fileParameters (pre @ suf),
                  override_log pre @ override_log suf)"
proof -
  from assms have nwf: "\<not> well_formed tok"
    by (simp add: well_formed_def)
  then have "override_log (pre @ tok # suf)
               = override_log pre @ Warning_Malformed tok # override_log suf"
    by (simp add: override_log_def)
  moreover have "override_log (pre @ suf) = override_log pre @ override_log suf"
    by (simp add: override_log_def)
  ultimately show ?thesis
    using nwf by (simp add: inject_parameters_eq spec_overrides_skip)
qed

theorem malformed_override_skipped_witness:
  "CHR ''='' \<notin> set ''badtoken''
   \<and> inject_parameters (Map.empty, []) [''badtoken'', ''k1=v1'']
       = Inr (Map.empty(''k1'' \<mapsto> ''v1''),
              [Warning_Malformed ''badtoken'', Info_Setting ''k1'' ''v1''])"
  using malformed_override_skipped [of "''badtoken''" Map.empty "[]" "[''k1=v1'']"]
  by (simp add: override_log_def well_formed_def key_of_def value_of_def)

text \<open>
  C10. A token is accepted as soon as it holds a \<open>=\<close>, wherever it stands, and it is
  split at the first one: the key is the text before it (possibly empty) and the value
  all the text after it (possibly empty, possibly with further \<open>=\<close>). Only a token
  without any \<open>=\<close> is rejected.
\<close>

theorem override_split_at_first_eq:
  "(CHR ''='' \<notin> set k \<longrightarrow>
      inject_parameter (m, lg) (k @ CHR ''='' # v) = Inr (m(k \<mapsto> v), lg @ [Info_Setting k v]))
   \<and> (CHR ''='' \<notin> set k \<longrightarrow>
      inject_parameter (m, lg) (k @ ''='') = Inr (m(k \<mapsto> []), lg @ [Info_Setting k []]))
   \<and> inject_parameter (m, lg) (CHR ''='' # v) = Inr (m([] \<mapsto> v), lg @ [Info_Setting [] v])
   \<and> (CHR ''='' \<in> set tok \<longrightarrow>
      (\<exists>k' v'. tok = k' @ CHR ''='' # v' \<and> CHR ''='' \<notin> set k'
         \<and> inject_parameter (m, lg) tok = Inr (m(k' \<mapsto> v'), lg @ [Info_Setting k' v'])))
   \<and> (CHR ''='' \<notin> set tok \<longrightarrow>
      inject_parameter (m, lg) tok = Inr (m, lg @ [Warning_Malformed tok]))"
proof -
  have split: "inject_parameter (m, lg) (k @ CHR ''='' # v) = Inr (m(k \<mapsto> v), lg @ [Info_Setting k v])"
    if "CHR ''='' \<notin> set k" for k v
  proof -
    from that have "key_of (k @ CHR ''='' # v) = k"
      unfolding key_of_def by (induction k) auto
    moreover from that have "value_of (k @ CHR ''='' # v) = v"
      unfolding value_of_def by (induction k) auto
    ultimately show ?thesis
      by (simp add: inject_parameter_eq well_formed_def)
  qed
  have accepted: "\<exists>k' v'. tok = k' @ CHR ''='' # v' \<and> CHR ''='' \<notin> set k'
         \<and> inject_parameter (m, lg) tok = Inr (m(k' \<mapsto> v'), lg @ [Info_Setting k' v'])"
    if "CHR ''='' \<in> set tok"
  proof -
    from that obtain k' v' where "tok = k' @ CHR ''='' # v'" and "CHR ''='' \<notin> set k'"
      using split_list_first [of "CHR ''=''" tok] by blast
    with split [of k' v'] show ?thesis by blast
  qed
  have rejected: "inject_parameter (m, lg) tok = Inr (m, lg @ [Warning_Malformed tok])"
    if "CHR ''='' \<notin> set tok"
    using that by (simp add: inject_parameter_eq well_formed_def)
  from split [of k v] split [of k "[]"] split [of "[]" v] accepted rejected
  show ?thesis by simp
qed

theorem override_split_at_first_eq_witness:
  "inject_parameter (Map.empty, []) ''a=b=c''
     = Inr (Map.empty(''a'' \<mapsto> ''b=c''), [Info_Setting ''a'' ''b=c''])
   \<and> inject_parameter (Map.empty, []) ''k=''
     = Inr (Map.empty(''k'' \<mapsto> []), [Info_Setting ''k'' []])
   \<and> inject_parameter (Map.empty, []) ''=v''
     = Inr (Map.empty([] \<mapsto> ''v''), [Info_Setting [] ''v''])
   \<and> inject_parameter (Map.empty, []) ''kv''
     = Inr (Map.empty, [Warning_Malformed ''kv''])"
  using override_split_at_first_eq [of "''a''" Map.empty "[]" "''b=c''" "''kv''"]
    override_split_at_first_eq [of "''k''" Map.empty "[]" "''v''" "''kv''"]
  by simp

section \<open>Properties of the scheduling loop\<close>

lemma pop_None:
  "popNextFinishedReplicate env t rs = (None, rs', t') \<Longrightarrow> rs' = rs"
  by (induction rs arbitrary: t rs') (auto split: if_splits prod.splits)

lemma pop_Some:
  "popNextFinishedReplicate env t rs = (Some r, rs', t') \<Longrightarrow>
     \<exists>pre suf. rs = pre @ r # suf \<and> rs' = pre @ suf"
proof (induction rs arbitrary: t rs')
  case Nil
  then show ?case by simp
next
  case (Cons a rs)
  show ?case
  proof (cases "hasReplicateFinished env t a")
    case True
    with Cons.prems have "a = r" and "rs' = rs" by simp_all
    then have "a # rs = [] @ r # rs \<and> rs' = [] @ rs" by simp
    then show ?thesis by blast
  next
    case False
    with Cons.prems obtain rs'' where p: "popNextFinishedReplicate env (Suc t) rs = (Some r, rs'', t')"
      and r: "rs' = a # rs''"
      by (auto split: prod.splits)
    from Cons.IH [OF p] obtain pre suf where "rs = pre @ r # suf" and "rs'' = pre @ suf"
      by blast
    with r have "a # rs = (a # pre) @ r # suf \<and> rs' = (a # pre) @ suf" by simp
    then show ?thesis by blast
  qed
qed

lemma reap_loop_None:
  "popNextFinishedReplicate env (clock s) (runningReplicates s) = (None, rs, t) \<Longrightarrow>
     reap_loop env s = [s, s\<lparr>clock := t\<rparr>]"
  by (subst reap_loop.simps) simp

lemma reap_loop_Some:
  "popNextFinishedReplicate env (clock s) (runningReplicates s) = (Some r, rs, t) \<Longrightarrow>
     reap_loop env s = s # reap_body env r rs t s @ reap_loop env (last (reap_body env r rs t s))"
  by (subst reap_loop.simps) simp

lemma reap_loop_not_Nil: "reap_loop env s \<noteq> []"
  by (subst reap_loop.simps) (simp split: prod.splits option.splits)

lemma hd_reap_loop: "hd (reap_loop env s) = s"
  by (subst reap_loop.simps) (simp split: prod.splits option.splits)

lemma card_running_le:
  "{r. tbl r = (1::int)} \<subseteq> set xs \<Longrightarrow> int (length xs) \<le> mx \<Longrightarrow> int (card {r. tbl r = 1}) \<le> mx"
proof -
  assume sub: "{r. tbl r = (1::int)} \<subseteq> set xs" and le: "int (length xs) \<le> mx"
  have "card {r. tbl r = 1} \<le> card (set xs)"
    using sub by (intro card_mono) simp_all
  also have "\<dots> \<le> length xs" by (rule card_length)
  finally show ?thesis using le by linarith
qed

text \<open>The body of the inner loop, from a state of the invariant.\<close>

lemma reap_body_inv:
  assumes inv: "sched_inv s"
    and pop: "popNextFinishedReplicate env (clock s) (runningReplicates s) = (Some r, rs, t)"
  shows "sched_inv (last (reap_body env r rs t s))"
    and "assignedSimulations (last (reap_body env r rs t s)) = assignedSimulations s - 1"
    and "successively forward (s # reap_body env r rs t s)"
    and "assignedSimulations s \<le> getMaxSimultaneousReplicates cfg \<Longrightarrow>
         \<forall>p \<in> set (reap_body env r rs t s). within_capacity cfg p"
proof -
  from pop_Some [OF pop] obtain pre suf where
    run: "runningReplicates s = pre @ r # suf" and rs: "rs = pre @ suf"
    by blast
  from inv have d: "distinct (runningReplicates s)"
    and a: "assignedSimulations s = int (length (runningReplicates s))"
    and st: "{r. simulationStatusTable s r = 1} = set (runningReplicates s)"
    by (simp_all add: sched_inv_def)
  from d run rs have drs: "distinct rs" and notin: "r \<notin> set rs"
    and setrs: "set rs = set (runningReplicates s) - {r}"
    and lenrs: "int (length rs) = int (length (runningReplicates s)) - 1"
    by auto
  from st run have r1: "simulationStatusTable s r = 1" by auto
  have st': "{x. ((simulationStatusTable s)(r := 2)) x = 1} = set rs"
    using st setrs by auto
  show "sched_inv (last (reap_body env r rs t s))"
    using drs a lenrs st' by (simp add: reap_body_def Let_def sched_inv_def)
  show "assignedSimulations (last (reap_body env r rs t s)) = assignedSimulations s - 1"
    by (simp add: reap_body_def Let_def)
  show "successively forward (s # reap_body env r rs t s)"
    using r1 by (simp add: reap_body_def Let_def forward_def status_forward_def)
  show "\<forall>p \<in> set (reap_body env r rs t s). within_capacity cfg p"
    if le: "assignedSimulations s \<le> getMaxSimultaneousReplicates cfg"
  proof -
    from le a have l: "int (length (runningReplicates s)) \<le> getMaxSimultaneousReplicates cfg"
      by simp
    have c1: "int (card {x. simulationStatusTable s x = 1}) \<le> getMaxSimultaneousReplicates cfg"
      using card_running_le [of "simulationStatusTable s" "runningReplicates s"] st l by simp
    have c2: "int (card {x. ((simulationStatusTable s)(r := 2)) x = 1}) \<le> getMaxSimultaneousReplicates cfg"
      using card_running_le [of "(simulationStatusTable s)(r := 2)" "runningReplicates s"] st' setrs l
      by auto
    from le l lenrs c1 c2 show ?thesis
      by (simp add: reap_body_def Let_def within_capacity_def)
  qed
qed

lemma forward_refl: "forward p p"
  by (simp add: forward_def status_forward_def)

lemma inv_within_capacity:
  assumes "sched_inv s" and "assignedSimulations s \<le> getMaxSimultaneousReplicates cfg"
  shows "within_capacity cfg s"
  using assms card_running_le [of "simulationStatusTable s" "runningReplicates s" "getMaxSimultaneousReplicates cfg"]
  by (simp add: sched_inv_def within_capacity_def)

lemma reap_body_last:
  "runningReplicates (last (reap_body env r rs t s)) = rs"
  "reap_body env r rs t s \<noteq> []"
  "noopLoopCycles (last (reap_body env r rs t s)) = 0"
  by (simp_all add: reap_body_def Let_def)

lemma reap_loop_inv:
  assumes "sched_inv s"
  shows "sched_inv (last (reap_loop env s))
         \<and> assignedSimulations (last (reap_loop env s)) \<le> assignedSimulations s
         \<and> successively forward (reap_loop env s)
         \<and> (assignedSimulations s \<le> getMaxSimultaneousReplicates cfg \<longrightarrow>
              (\<forall>p \<in> set (reap_loop env s). within_capacity cfg p))"
  using assms
proof (induction "length (runningReplicates s)" arbitrary: s rule: less_induct)
  case less
  obtain f rs t where pop: "popNextFinishedReplicate env (clock s) (runningReplicates s) = (f, rs, t)"
    by (cases "popNextFinishedReplicate env (clock s) (runningReplicates s)")
  show ?case
  proof (cases f)
    case None
    with pop have rl: "reap_loop env s = [s, s\<lparr>clock := t\<rparr>]"
      by (simp add: reap_loop_None)
    from less.prems have "sched_inv (s\<lparr>clock := t\<rparr>)"
      by (simp add: sched_inv_def)
    moreover have "forward s (s\<lparr>clock := t\<rparr>)"
      by (simp add: forward_def status_forward_def)
    moreover have "within_capacity cfg s \<and> within_capacity cfg (s\<lparr>clock := t\<rparr>)"
      if "assignedSimulations s \<le> getMaxSimultaneousReplicates cfg"
      using inv_within_capacity [OF less.prems that] by (simp add: within_capacity_def)
    ultimately show ?thesis
      unfolding rl by simp
  next
    case (Some r)
    with pop have pop': "popNextFinishedReplicate env (clock s) (runningReplicates s) = (Some r, rs, t)"
      by simp
    let ?body = "reap_body env r rs t s"
    let ?s' = "last ?body"
    let ?rl = "reap_loop env ?s'"
    have rl: "reap_loop env s = s # ?body @ ?rl"
      by (rule reap_loop_Some [OF pop'])
    from pop_Some [OF pop'] have "length rs < length (runningReplicates s)"
      by auto
    then have shorter: "length (runningReplicates ?s') < length (runningReplicates s)"
      by (simp add: reap_body_last)
    note body = reap_body_inv [OF less.prems pop']
    note ih = less.hyps [OF shorter body(1)]
    have last_eq: "last (reap_loop env s) = last ?rl"
      unfolding rl by (simp add: reap_loop_not_Nil)
    have 1: "sched_inv (last (reap_loop env s))"
      using ih last_eq by simp
    have 2: "assignedSimulations (last (reap_loop env s)) \<le> assignedSimulations s"
      using ih body(2) last_eq by simp
    have "successively forward ((s # ?body) @ ?rl)"
      unfolding successively_append_iff
      using body(3) ih by (simp add: hd_reap_loop reap_body_last forward_refl)
    then have 3: "successively forward (reap_loop env s)"
      unfolding rl by simp
    have 4: "\<forall>p \<in> set (reap_loop env s). within_capacity cfg p"
      if le: "assignedSimulations s \<le> getMaxSimultaneousReplicates cfg"
    proof -
      from le body(2) have "assignedSimulations ?s' \<le> getMaxSimultaneousReplicates cfg"
        by simp
      with ih have "\<forall>p \<in> set ?rl. within_capacity cfg p"
        by simp
      moreover have "within_capacity cfg s"
        by (rule inv_within_capacity [OF less.prems le])
      moreover note body(4) [OF le]
      ultimately show ?thesis
        unfolding rl by auto
    qed
    from 1 2 3 4 show ?thesis by blast
  qed
qed

lemma find_simulation_fst:
  "fst (find_simulation rs tbl d af) = (case List.find (\<lambda>r. tbl r = 0) rs of None \<Rightarrow> d | Some r \<Rightarrow> r)"
  by (induction rs arbitrary: af) simp_all

lemma find_simulation_snd:
  "snd (find_simulation rs tbl d af) = (af \<and> (\<forall>r \<in> set rs. tbl r = 2))"
  by (induction rs arbitrary: af) auto

lemma sleep_trace:
  "\<exists>s1 s2 oc. sleep cfg env s = ([s, s1, s2], oc) \<and> oc \<noteq> Break \<and> oc \<noteq> AbortSeen
     \<and> assignedSimulations s1 = assignedSimulations s \<and> assignedSimulations s2 = assignedSimulations s
     \<and> runningReplicates s1 = runningReplicates s \<and> runningReplicates s2 = runningReplicates s
     \<and> simulationStatusTable s1 = simulationStatusTable s \<and> simulationStatusTable s2 = simulationStatusTable s
     \<and> noopLoopCycles s1 = noopLoopCycles s \<and> noopLoopCycles s2 = noopLoopCycles s"
  by (simp add: sleep_def Let_def tick_def)

lemma start_or_sleep_inv:
  assumes inv: "sched_inv s"
  shows "sched_inv (last (fst (start_or_sleep cfg env s)))
         \<and> successively forward (fst (start_or_sleep cfg env s))
         \<and> (assignedSimulations s \<le> getMaxSimultaneousReplicates cfg \<longrightarrow>
              assignedSimulations (last (fst (start_or_sleep cfg env s))) \<le> getMaxSimultaneousReplicates cfg
              \<and> (\<forall>p \<in> set (fst (start_or_sleep cfg env s)). within_capacity cfg p))"
proof -
  let ?tbl = "simulationStatusTable s"
  let ?mx = "getMaxSimultaneousReplicates cfg"
  obtain r af where fs: "find_simulation (replicates cfg) ?tbl (- 1) True = (r, af)"
    by (cases "find_simulation (replicates cfg) ?tbl (- 1) True")
  from inv have d: "distinct (runningReplicates s)"
    and a: "assignedSimulations s = int (length (runningReplicates s))"
    and st: "{r. ?tbl r = 1} = set (runningReplicates s)"
    by (simp_all add: sched_inv_def)
  have wc: "within_capacity cfg s" if "assignedSimulations s \<le> ?mx"
    by (rule inv_within_capacity [OF inv that])
  consider (brk) "af"
    | (start) "\<not> af" "0 \<le> r" "assignedSimulations s < ?mx"
    | (idle) "\<not> af" "\<not> (0 \<le> r \<and> assignedSimulations s < ?mx)"
    by blast
  then show ?thesis
  proof cases
    case brk
    with fs have "start_or_sleep cfg env s = ([s], Break)"
      by (simp add: start_or_sleep_def)
    with inv wc show ?thesis by simp
  next
    case start
    from fs have fr: "r = (case List.find (\<lambda>r. ?tbl r = 0) (replicates cfg) of None \<Rightarrow> - 1 | Some r \<Rightarrow> r)"
      using find_simulation_fst [of "replicates cfg" ?tbl "- 1" True] by simp
    have r0: "?tbl r = 0"
    proof (cases "List.find (\<lambda>r. ?tbl r = 0) (replicates cfg)")
      case None
      with fr start(2) show ?thesis by simp
    next
      case (Some x)
      with fr have "x = r" by simp
      with Some show ?thesis by (auto simp: find_Some_iff)
    qed
    have notin: "r \<notin> set (runningReplicates s)"
    proof
      assume "r \<in> set (runningReplicates s)"
      with st have "r \<in> {r. ?tbl r = 1}" by simp
      with r0 show False by simp
    qed
    show ?thesis
    proof (cases "startReplicateThrows env (clock s) r")
      case True
      with fs start have "start_or_sleep cfg env s = ([s, tick s], Throw StartFailure)"
        by (simp add: start_or_sleep_def startReplicate_def)
      moreover have "sched_inv (tick s)"
        using inv by (simp add: sched_inv_def tick_def)
      moreover have "forward s (tick s)"
        by (simp add: forward_def status_forward_def tick_def)
      moreover have "within_capacity cfg (tick s)" if "assignedSimulations s \<le> ?mx"
        using wc [OF that] by (simp add: within_capacity_def tick_def)
      ultimately show ?thesis
        using wc by (simp add: tick_def)
    next
      case False
      with fs start have sos: "start_or_sleep cfg env s = (s # start_body r r s, Continue)"
        by (simp add: start_or_sleep_def startReplicate_def)
      have st': "{x. (?tbl(r := 1)) x = 1} = set (runningReplicates s @ [r])"
        using st by auto
      have 1: "sched_inv (last (s # start_body r r s))"
        using d a notin st' by (simp add: start_body_def Let_def tick_def sched_inv_def)
      have 2: "successively forward (s # start_body r r s)"
        using r0 by (simp add: start_body_def Let_def tick_def forward_def status_forward_def)
      have l: "int (length (runningReplicates s @ [r])) \<le> ?mx"
        using start(3) a by simp
      have c1: "int (card {x. ?tbl x = 1}) \<le> ?mx"
        using card_running_le [of ?tbl "runningReplicates s @ [r]" ?mx] st l by auto
      have c2: "int (card {x. (?tbl(r := 1)) x = 1}) \<le> ?mx"
        using card_running_le [of "?tbl(r := 1)" "runningReplicates s @ [r]" ?mx] st' l by simp
      have 3: "\<forall>p \<in> set (s # start_body r r s). within_capacity cfg p"
        using start(3) a l c1 c2
        by (simp add: start_body_def Let_def tick_def within_capacity_def)
      have 4: "assignedSimulations (last (s # start_body r r s)) \<le> ?mx"
        using start(3) by (simp add: start_body_def Let_def tick_def)
      from 1 2 3 4 show ?thesis
        unfolding sos by simp
    qed
  next
    case idle
    with fs have sos: "start_or_sleep cfg env s = sleep cfg env s"
      by (auto simp add: start_or_sleep_def)
    from sleep_trace [of cfg env s] obtain s1 s2 oc where sl: "sleep cfg env s = ([s, s1, s2], oc)"
      and eqs: "assignedSimulations s1 = assignedSimulations s" "assignedSimulations s2 = assignedSimulations s"
        "runningReplicates s1 = runningReplicates s" "runningReplicates s2 = runningReplicates s"
        "simulationStatusTable s1 = simulationStatusTable s" "simulationStatusTable s2 = simulationStatusTable s"
      by blast
    from inv eqs have "sched_inv s2"
      by (simp add: sched_inv_def)
    moreover from eqs have "forward s s1" "forward s1 s2"
      by (simp_all add: forward_def status_forward_def)
    moreover have "within_capacity cfg s \<and> within_capacity cfg s1 \<and> within_capacity cfg s2"
      if "assignedSimulations s \<le> ?mx"
      using wc [OF that] eqs by (simp add: within_capacity_def)
    ultimately show ?thesis
      unfolding sos sl using eqs by simp
  qed
qed

lemma start_or_sleep_hd:
  "fst (start_or_sleep cfg env s) \<noteq> [] \<and> hd (fst (start_or_sleep cfg env s)) = s"
  using sleep_trace [of cfg env s]
  by (auto simp: start_or_sleep_def split: prod.splits sum.splits)

lemma loop_iteration_inv:
  assumes inv: "sched_inv s"
  shows "sched_inv (last (fst (loop_iteration cfg env s)))
         \<and> successively forward (fst (loop_iteration cfg env s))
         \<and> (assignedSimulations s \<le> getMaxSimultaneousReplicates cfg \<longrightarrow>
              assignedSimulations (last (fst (loop_iteration cfg env s))) \<le> getMaxSimultaneousReplicates cfg
              \<and> (\<forall>p \<in> set (fst (loop_iteration cfg env s)). within_capacity cfg p))"
proof (cases "globalAbort env (clock s)")
  case True
  then have li: "loop_iteration cfg env s = ([s, tick s], AbortSeen)"
    by (simp add: loop_iteration_def)
  have "sched_inv (tick s)"
    using inv by (simp add: sched_inv_def tick_def)
  moreover have "forward s (tick s)"
    by (simp add: forward_def status_forward_def tick_def)
  moreover have "within_capacity cfg s \<and> within_capacity cfg (tick s)"
    if "assignedSimulations s \<le> getMaxSimultaneousReplicates cfg"
    using inv_within_capacity [OF inv that] by (simp add: within_capacity_def tick_def)
  ultimately show ?thesis
    unfolding li by (simp add: tick_def)
next
  case False
  let ?mx = "getMaxSimultaneousReplicates cfg"
  let ?s1 = "(tick s)\<lparr>noopLoopCycles := noopLoopCycles s + 1\<rparr>"
  let ?tr = "reap_loop env ?s1"
  let ?s2 = "last ?tr"
  have inv1: "sched_inv ?s1"
    using inv by (simp add: sched_inv_def tick_def)
  have a1: "assignedSimulations ?s1 = assignedSimulations s"
    by (simp add: tick_def)
  have f1: "forward s ?s1"
    by (simp add: forward_def status_forward_def tick_def)
  note rl = reap_loop_inv [OF inv1, of env cfg]
  from rl have inv2: "sched_inv ?s2" by simp
  have wc: "within_capacity cfg s" if "assignedSimulations s \<le> ?mx"
    by (rule inv_within_capacity [OF inv that])
  have s_tr: "successively forward (s # ?tr)"
    using rl f1 by (simp add: successively_Cons hd_reap_loop)
  show ?thesis
  proof (cases "1000 < noopLoopCycles ?s2")
    case no: False
    with False have li: "loop_iteration cfg env s = (s # ?tr, Continue)"
      by (simp add: loop_iteration_def Let_def)
    show ?thesis
      unfolding li using inv2 s_tr rl wc a1 by (simp add: reap_loop_not_Nil)
  next
    case yes: True
    let ?tr' = "fst (start_or_sleep cfg env ?s2)"
    from False yes have li: "fst (loop_iteration cfg env s) = s # ?tr @ ?tr'"
      by (simp add: loop_iteration_def Let_def split: prod.splits)
    note sos = start_or_sleep_inv [OF inv2, of cfg env]
    note hd' = start_or_sleep_hd [of cfg env ?s2]
    have last_eq: "last (s # ?tr @ ?tr') = last ?tr'"
      using hd' by simp
    have "successively forward ((s # ?tr) @ ?tr')"
      unfolding successively_append_iff
      using s_tr sos hd' by (simp add: reap_loop_not_Nil forward_refl)
    then have 2: "successively forward (s # ?tr @ ?tr')"
      by simp
    have 3: "assignedSimulations (last ?tr') \<le> ?mx \<and> (\<forall>p \<in> set (s # ?tr @ ?tr'). within_capacity cfg p)"
      if le: "assignedSimulations s \<le> ?mx"
    proof -
      from rl le a1 have "assignedSimulations ?s2 \<le> ?mx" and "\<forall>p \<in> set ?tr. within_capacity cfg p"
        by simp_all
      with sos wc [OF le] show ?thesis by auto
    qed
    show ?thesis
      unfolding li last_eq using sos 2 3 by blast
  qed
qed

lemma loop_head_inv:
  assumes "loop_head n cfg env s0 = Some s" and "sched_inv s0"
  shows "sched_inv s
         \<and> (assignedSimulations s0 \<le> getMaxSimultaneousReplicates cfg \<longrightarrow>
              assignedSimulations s \<le> getMaxSimultaneousReplicates cfg)"
  using assms
proof (induction n arbitrary: s0)
  case 0
  then show ?case by simp
next
  case (Suc n)
  obtain tr oc where li: "loop_iteration cfg env s0 = (tr, oc)"
    by (cases "loop_iteration cfg env s0")
  with Suc.prems(1) have oc: "oc = Continue" and lh: "loop_head n cfg env (last tr) = Some s"
    by (auto split: outcome.splits)
  from loop_iteration_inv [OF Suc.prems(2), of cfg env] li
  have "sched_inv (last tr)"
    and "assignedSimulations s0 \<le> getMaxSimultaneousReplicates cfg \<longrightarrow>
         assignedSimulations (last tr) \<le> getMaxSimultaneousReplicates cfg"
    by simp_all
  with Suc.IH [OF lh] show ?case by blast
qed

lemma initial_table: "foldl (\<lambda>tbl r. tbl(r := 0)) (\<lambda>_. 0::int) rs = (\<lambda>_. 0)"
proof (induction rs)
  case Nil
  show ?case by simp
next
  case (Cons r rs)
  have "(\<lambda>_. 0::int)(r := 0) = (\<lambda>_. 0)" by auto
  with Cons show ?case by simp
qed

lemma initial_state_inv: "sched_inv (initial_state cfg)"
  by (simp add: sched_inv_def initial_state_def initial_table)

text \<open>
  C1. With a capacity that is a count (not negative), at every statement of every pass of
  the loop, from the state the loop starts in, the counter \<open>assignedSimulations\<close>, the
  number of runners and the number of replicates with status Running are all at most the
  value \<open>getMaxSimultaneousReplicates()\<close> returned.
\<close>

theorem running_never_exceeds_max:
  assumes "0 \<le> getMaxSimultaneousReplicates cfg"
    and "loop_head n cfg env (initial_state cfg) = Some s"
    and "p \<in> set (fst (loop_iteration cfg env s))"
  shows "assignedSimulations p \<le> getMaxSimultaneousReplicates cfg
         \<and> int (length (runningReplicates p)) \<le> getMaxSimultaneousReplicates cfg
         \<and> int (card {r. simulationStatusTable p r = 1}) \<le> getMaxSimultaneousReplicates cfg"
proof -
  have a0: "assignedSimulations (initial_state cfg) \<le> getMaxSimultaneousReplicates cfg"
    using assms(1) by (simp add: initial_state_def)
  from loop_head_inv [OF assms(2) initial_state_inv] a0
  have "sched_inv s" and "assignedSimulations s \<le> getMaxSimultaneousReplicates cfg"
    by simp_all
  with loop_iteration_inv [of s cfg env] assms(3) have "within_capacity cfg p"
    by simp
  then show ?thesis
    by (simp add: within_capacity_def)
qed

text \<open>
  C2. Every status is Pending (0) when the loop starts, and between two successive
  statements of any pass each status is unchanged, goes from 0 to 1, or goes from 1 to 2:
  the sequence is Pending, Running, Finished, with no step back and no step skipped.
\<close>

theorem status_only_moves_forward:
  assumes "loop_head n cfg env (initial_state cfg) = Some s"
  shows "(\<forall>r. simulationStatusTable (initial_state cfg) r = 0)
         \<and> successively forward (fst (loop_iteration cfg env s))"
proof -
  from loop_head_inv [OF assms initial_state_inv] have "sched_inv s"
    by simp
  with loop_iteration_inv [of s cfg env] show ?thesis
    by (simp add: initial_state_def initial_table)
qed

lemma noop_bump:
  fixes w :: "64 word"
  assumes "unat w < 1000"
  shows "unat (w + 1) = Suc (unat w)" and "\<not> 1000 < w + 1"
proof -
  have "unat (w + 1) = (unat w + 1) mod 2 ^ 64"
    by (simp add: unat_word_ariths)
  also have "\<dots> = unat w + 1"
    using assms by simp
  finally show u: "unat (w + 1) = Suc (unat w)" by simp
  show "\<not> 1000 < w + 1"
    using assms u by (simp add: word_less_nat_alt)
qed

lemma loop_head_add:
  "loop_head (m + n) cfg env s =
     (case loop_head m cfg env s of None \<Rightarrow> None | Some s' \<Rightarrow> loop_head n cfg env s')"
  by (induction m arbitrary: s) (auto split: prod.splits outcome.splits)

lemma idle_passes:
  assumes "runningReplicates s = []"
    and "\<forall>i<n. \<not> globalAbort env (clock s + i)"
    and "unat (noopLoopCycles s) + n \<le> 1000"
  shows "loop_head n cfg env s =
           Some (s\<lparr>clock := clock s + n, noopLoopCycles := noopLoopCycles s + of_nat n\<rparr>)"
  using assms
proof (induction n arbitrary: s)
  case 0
  then show ?case by simp
next
  case (Suc n)
  let ?s1 = "(tick s)\<lparr>noopLoopCycles := noopLoopCycles s + 1\<rparr>"
  from Suc.prems(2) have na: "\<not> globalAbort env (clock s)"
    by force
  from Suc.prems(3) have lt: "unat (noopLoopCycles s) < 1000"
    by simp
  have rl: "reap_loop env ?s1 = [?s1, ?s1]"
    using Suc.prems(1) by (subst reap_loop.simps) (simp add: tick_def)
  have li: "loop_iteration cfg env s = ([s, ?s1, ?s1], Continue)"
    using na noop_bump(2) [OF lt] by (simp add: loop_iteration_def Let_def rl)
  have "loop_head n cfg env ?s1 =
          Some (?s1\<lparr>clock := clock ?s1 + n, noopLoopCycles := noopLoopCycles ?s1 + of_nat n\<rparr>)"
  proof (rule Suc.IH)
    show "runningReplicates ?s1 = []"
      using Suc.prems(1) by (simp add: tick_def)
    show "\<forall>i<n. \<not> globalAbort env (clock ?s1 + i)"
      using Suc.prems(2) by (auto simp: tick_def)
    show "unat (noopLoopCycles ?s1) + n \<le> 1000"
      using Suc.prems(3) noop_bump(1) [OF lt] by simp
  qed
  then show ?case
    by (simp add: li tick_def add.assoc)
qed

lemma reap_loop_events:
  "\<exists>cs. events (last (reap_loop env s)) = events s @ cs
        \<and> (\<forall>e \<in> set cs. \<exists>r c. e = Completed r c)
        \<and> noopLoopCycles (last (reap_loop env s)) = (if cs = [] then noopLoopCycles s else 0)"
proof (induction "length (runningReplicates s)" arbitrary: s rule: less_induct)
  case less
  obtain f rs t where pop: "popNextFinishedReplicate env (clock s) (runningReplicates s) = (f, rs, t)"
    by (cases "popNextFinishedReplicate env (clock s) (runningReplicates s)")
  show ?case
  proof (cases f)
    case None
    with pop have "reap_loop env s = [s, s\<lparr>clock := t\<rparr>]"
      by (simp add: reap_loop_None)
    then show ?thesis by simp
  next
    case (Some r)
    with pop have pop': "popNextFinishedReplicate env (clock s) (runningReplicates s) = (Some r, rs, t)"
      by simp
    let ?body = "reap_body env r rs t s"
    let ?s' = "last ?body"
    have rl: "reap_loop env s = s # ?body @ reap_loop env ?s'"
      by (rule reap_loop_Some [OF pop'])
    from pop_Some [OF pop'] have "length rs < length (runningReplicates s)"
      by auto
    then have "length (runningReplicates ?s') < length (runningReplicates s)"
      by (simp add: reap_body_last)
    from less.hyps [OF this] obtain cs where
      ev: "events (last (reap_loop env ?s')) = events ?s' @ cs"
      and co: "\<forall>e \<in> set cs. \<exists>r c. e = Completed r c"
      and no: "noopLoopCycles (last (reap_loop env ?s')) = (if cs = [] then noopLoopCycles ?s' else 0)"
      by blast
    have ev': "events ?s' = events s @ [Completed r (getReplicateExitCode env r)]"
      by (simp add: reap_body_def Let_def)
    have last_eq: "last (reap_loop env s) = last (reap_loop env ?s')"
      unfolding rl by (simp add: reap_loop_not_Nil)
    let ?cs = "Completed r (getReplicateExitCode env r) # cs"
    have "events (last (reap_loop env s)) = events s @ ?cs"
      using ev ev' last_eq by simp
    moreover have "\<forall>e \<in> set ?cs. \<exists>r c. e = Completed r c"
      using co by simp
    moreover have "noopLoopCycles (last (reap_loop env s)) = (if ?cs = [] then noopLoopCycles s else 0)"
      using no last_eq by (simp add: reap_body_last)
    ultimately show ?thesis by blast
  qed
qed

lemma no_break_while_counting:
  "unat (noopLoopCycles s) + k \<le> 1000 \<Longrightarrow> scheduling_loop k cfg env s \<noteq> Some (Break, s')"
proof (induction k arbitrary: s)
  case 0
  show ?case by simp
next
  case (Suc k)
  show ?case
  proof (cases "globalAbort env (clock s)")
    case True
    then show ?thesis by (simp add: loop_iteration_def)
  next
    case False
    let ?s1 = "(tick s)\<lparr>noopLoopCycles := noopLoopCycles s + 1\<rparr>"
    let ?tr = "reap_loop env ?s1"
    from Suc.prems have lt: "unat (noopLoopCycles s) < 1000"
      by simp
    from reap_loop_events [of env ?s1]
    have cases: "noopLoopCycles (last ?tr) = noopLoopCycles s + 1 \<or> noopLoopCycles (last ?tr) = 0"
      by (auto split: if_splits)
    then have small: "\<not> 1000 < noopLoopCycles (last ?tr)"
      using noop_bump(2) [OF lt] by auto
    have "unat (noopLoopCycles (last ?tr)) \<le> Suc (unat (noopLoopCycles s))"
      using cases noop_bump(1) [OF lt] by auto
    with Suc.prems have "unat (noopLoopCycles (last ?tr)) + k \<le> 1000"
      by simp
    from Suc.IH [OF this] have "scheduling_loop k cfg env (last ?tr) \<noteq> Some (Break, s')" .
    moreover have "loop_iteration cfg env s = (s # ?tr, Continue)"
      using False small by (simp add: loop_iteration_def Let_def)
    ultimately show ?thesis
      by (simp add: reap_loop_not_Nil)
  qed
qed

lemma start_or_sleep_events:
  "Completed r c \<notin> set (new_events s (last (fst (start_or_sleep cfg env s))))"
  by (auto simp: start_or_sleep_def sleep_def start_body_def new_events_def tick_def Let_def
      split: prod.splits sum.splits)

lemma start_or_sleep_Break:
  "start_or_sleep cfg env s = (tr, Break) \<Longrightarrow> tr = [s]"
  by (auto simp: start_or_sleep_def sleep_def Let_def split: prod.splits sum.splits if_splits)

text \<open>
  C9. A pass leaves the loop through \<open>break\<close> only with \<open>noopLoopCycles\<close> above 1000.
  A pass that reaps a replicate ends with the counter at 0 and goes on, and none of the
  next 1000 passes leaves through \<open>break\<close>: completion is detected 1001 passes after the
  last reap at the earliest.
\<close>

theorem completion_detected_after_idle_passes:
  assumes "loop_iteration cfg env s = (tr, oc)"
  shows "(oc = Break \<longrightarrow> 1000 < noopLoopCycles (last tr))
         \<and> (Completed r c \<in> set (new_events s (last tr)) \<longrightarrow>
              oc = Continue \<and> noopLoopCycles (last tr) = 0
              \<and> (\<forall>k \<le> 1000. \<forall>s'. scheduling_loop k cfg env (last tr) \<noteq> Some (Break, s')))"
proof (cases "globalAbort env (clock s)")
  case True
  with assms have "tr = [s, tick s]" and "oc = AbortSeen"
    by (simp_all add: loop_iteration_def)
  then show ?thesis
    by (simp add: new_events_def tick_def)
next
  case False
  let ?s1 = "(tick s)\<lparr>noopLoopCycles := noopLoopCycles s + 1\<rparr>"
  let ?tr = "reap_loop env ?s1"
  from reap_loop_events [of env ?s1] obtain cs where
    ev: "events (last ?tr) = events s @ cs"
    and no: "noopLoopCycles (last ?tr) = (if cs = [] then noopLoopCycles s + 1 else 0)"
    by (auto simp: tick_def)
  show ?thesis
  proof (cases "1000 < noopLoopCycles (last ?tr)")
    case no_if: False
    with False assms have tr: "tr = s # ?tr" and oc: "oc = Continue"
      by (simp_all add: loop_iteration_def Let_def)
    have "noopLoopCycles (last tr) = 0
          \<and> (\<forall>k \<le> 1000. \<forall>s'. scheduling_loop k cfg env (last tr) \<noteq> Some (Break, s'))"
      if "Completed r c \<in> set (new_events s (last tr))"
    proof -
      from that ev tr have "cs \<noteq> []"
        by (auto simp: new_events_def reap_loop_not_Nil)
      with no tr have z: "noopLoopCycles (last tr) = 0"
        by (simp add: reap_loop_not_Nil)
      then have "scheduling_loop k cfg env (last tr) \<noteq> Some (Break, s')" if "k \<le> 1000" for k s'
        using no_break_while_counting [of "last tr" k cfg env s'] that by simp
      with z show ?thesis by blast
    qed
    with oc show ?thesis by simp
  next
    case enter: True
    with no have empty: "cs = []"
      by (auto split: if_splits)
    obtain tr' oc' where sos: "start_or_sleep cfg env (last ?tr) = (tr', oc')"
      by (cases "start_or_sleep cfg env (last ?tr)")
    with False enter assms have tr: "tr = s # ?tr @ tr'" and oc: "oc = oc'"
      by (simp_all add: loop_iteration_def Let_def)
    from start_or_sleep_hd [of cfg env "last ?tr"] sos have ne: "tr' \<noteq> []"
      by simp
    have ev0: "events (last ?tr) = events s"
      using ev empty by simp
    have "Completed r c \<notin> set (new_events s (last tr))"
      using start_or_sleep_events [of r c "last ?tr" cfg env] sos ne tr ev0
      by (simp add: new_events_def)
    moreover have "1000 < noopLoopCycles (last tr)" if "oc = Break"
      using start_or_sleep_Break [of cfg env "last ?tr" tr'] sos oc that tr enter by simp
    ultimately show ?thesis by simp
  qed
qed

lemma start_rule_refl: "start_rule cfg p p"
  by (simp add: start_rule_def)

lemma reap_loop_start_rule: "successively (start_rule cfg) (reap_loop env s)"
proof (induction "length (runningReplicates s)" arbitrary: s rule: less_induct)
  case less
  obtain f rs t where pop: "popNextFinishedReplicate env (clock s) (runningReplicates s) = (f, rs, t)"
    by (cases "popNextFinishedReplicate env (clock s) (runningReplicates s)")
  show ?case
  proof (cases f)
    case None
    with pop have "reap_loop env s = [s, s\<lparr>clock := t\<rparr>]"
      by (simp add: reap_loop_None)
    then show ?thesis by (simp add: start_rule_def)
  next
    case (Some r)
    with pop have pop': "popNextFinishedReplicate env (clock s) (runningReplicates s) = (Some r, rs, t)"
      by simp
    let ?body = "reap_body env r rs t s"
    let ?s' = "last ?body"
    have rl: "reap_loop env s = s # ?body @ reap_loop env ?s'"
      by (rule reap_loop_Some [OF pop'])
    from pop_Some [OF pop'] have "length rs < length (runningReplicates s)"
      by auto
    then have "length (runningReplicates ?s') < length (runningReplicates s)"
      by (simp add: reap_body_last)
    from less.hyps [OF this] have ih: "successively (start_rule cfg) (reap_loop env ?s')" .
    have body: "successively (start_rule cfg) (s # ?body)"
      by (simp add: reap_body_def Let_def start_rule_def)
    have "successively (start_rule cfg) ((s # ?body) @ reap_loop env ?s')"
      unfolding successively_append_iff
      using body ih by (simp add: hd_reap_loop reap_body_last start_rule_refl)
    then show ?thesis
      unfolding rl by simp
  qed
qed

lemma start_or_sleep_start_rule:
  "successively (start_rule cfg) (fst (start_or_sleep cfg env s))"
proof -
  let ?tbl = "simulationStatusTable s"
  obtain r af where fs: "find_simulation (replicates cfg) ?tbl (- 1) True = (r, af)"
    by (cases "find_simulation (replicates cfg) ?tbl (- 1) True")
  then have fr: "r = (case first_pending cfg s of None \<Rightarrow> - 1 | Some r \<Rightarrow> r)"
    using find_simulation_fst [of "replicates cfg" ?tbl "- 1" True] by (simp add: first_pending_def)
  have started: "first_pending cfg s = Some r" if "0 \<le> r"
    using fr that by (cases "first_pending cfg s") simp_all
  have sl: "successively (start_rule cfg) (fst (sleep cfg env s))"
    by (simp add: sleep_def Let_def tick_def start_rule_def)
  show ?thesis
    using fs started sl
    by (auto simp: start_or_sleep_def startReplicate_def start_body_def Let_def tick_def
        start_rule_def split: sum.splits)
qed

lemma loop_iteration_start_rule:
  "successively (start_rule cfg) (fst (loop_iteration cfg env s))"
proof (cases "globalAbort env (clock s)")
  case True
  then show ?thesis
    by (simp add: loop_iteration_def tick_def start_rule_def)
next
  case False
  let ?s1 = "(tick s)\<lparr>noopLoopCycles := noopLoopCycles s + 1\<rparr>"
  let ?tr = "reap_loop env ?s1"
  have "start_rule cfg s ?s1"
    by (simp add: start_rule_def tick_def)
  then have s_tr: "successively (start_rule cfg) (s # ?tr)"
    using reap_loop_start_rule [of cfg env ?s1] by (simp add: successively_Cons hd_reap_loop)
  show ?thesis
  proof (cases "1000 < noopLoopCycles (last ?tr)")
    case no: False
    with False s_tr show ?thesis
      by (simp add: loop_iteration_def Let_def)
  next
    case yes: True
    let ?tr' = "fst (start_or_sleep cfg env (last ?tr))"
    from False yes have li: "fst (loop_iteration cfg env s) = (s # ?tr) @ ?tr'"
      by (simp add: loop_iteration_def Let_def split: prod.splits)
    show ?thesis
      unfolding li successively_append_iff
      using s_tr start_or_sleep_start_rule [of cfg env "last ?tr"] start_or_sleep_hd [of cfg env "last ?tr"]
      by (simp add: reap_loop_not_Nil start_rule_refl)
  qed
qed

text \<open>
  C5. The scan returns the first replicate of the input list whose status is 0 (or \<open>-1\<close>
  when there is none), and whenever a statement of a pass starts a replicate, it is that
  first pending replicate of the state the statement ran in.
\<close>

theorem first_pending_replicate_is_started:
  "fst (find_simulation (replicates cfg) (simulationStatusTable s) (- 1) True)
     = (case first_pending cfg s of None \<Rightarrow> - 1 | Some r \<Rightarrow> r)
   \<and> successively (start_rule cfg) (fst (loop_iteration cfg env s))"
  using find_simulation_fst [of "replicates cfg" "simulationStatusTable s" "- 1" True]
    loop_iteration_start_rule [of cfg env s]
  by (simp add: first_pending_def)

text \<open>
  C3, as amended. The flag is never reset. Once the loop condition has read it set, no
  pending replicate is started: that pass ends the loop at once, no status changes, and
  what follows stops checkpointing, then calls abortWorkers (not stopWorkers), and
  returns. The pass in which the flag is set after the loop condition was evaluated is
  not covered: it runs to its end.
\<close>

theorem abort_stops_scheduling:
  assumes "\<forall>t t'. t \<le> t' \<longrightarrow> globalAbort env t \<longrightarrow> globalAbort env t'"
    and "globalAbort env (clock s)"
  shows "loop_iteration cfg env s = ([s, tick s], AbortSeen)
         \<and> run_from (Suc fuel) cfg env s = Some (None, shutdown env (tick s))
         \<and> events (shutdown env (tick s)) = events s @ [StopCheckpointing, AbortWorkers, FileClosed]
         \<and> simulationStatusTable (shutdown env (tick s)) = simulationStatusTable s
         \<and> runningReplicates (shutdown env (tick s)) = runningReplicates s"
proof -
  from assms(2) have li: "loop_iteration cfg env s = ([s, tick s], AbortSeen)"
    by (simp add: loop_iteration_def)
  from assms have "globalAbort env (Suc (clock s))"
    by (meson le_SucI order_refl)
  then have sh: "shutdown env (tick s)
      = (tick s)\<lparr>clock := Suc (Suc (clock s)), events := events s @ [StopCheckpointing, AbortWorkers, FileClosed]\<rparr>"
    by (simp add: shutdown_def tick_def Let_def)
  have "run_from (Suc fuel) cfg env s = Some (None, shutdown env (tick s))"
    using li by (simp add: run_from_def)
  moreover have "events (shutdown env (tick s)) = events s @ [StopCheckpointing, AbortWorkers, FileClosed]"
    and "simulationStatusTable (shutdown env (tick s)) = simulationStatusTable s"
    and "runningReplicates (shutdown env (tick s)) = runningReplicates s"
    unfolding sh by (simp_all add: tick_def)
  ultimately show ?thesis
    using li by simp
qed

text \<open>
  C4. When \<open>getMaxSimultaneousReplicates()\<close> returns 0, executeSimulation throws
  whatever the fuel (the invalid-configuration exception, unless the setup before the
  check has thrown already), with no runner and no event, and main returns \<open>-1\<close>.
\<close>

theorem zero_capacity_is_fatal:
  assumes "getMaxSimultaneousReplicates cfg = 0"
  shows "executeSimulation fuel cfg env
           = Some (Some (if setupThrows env then SetupFailure else InvalidConfiguration),
                   initial_state cfg)
         \<and> events (initial_state cfg) = [] \<and> runningReplicates (initial_state cfg) = []
         \<and> (functionOption cfg = ''simulation'' \<longrightarrow> main fuel cfg env = Some (- 1))"
  using assms by (simp add: executeSimulation_def main_def main_try_def initial_state_def)

subsection \<open>The scenarios, run\<close>

lemmas pass_simps =
  loop_iteration_def reap_loop.simps reap_body_def start_or_sleep_def start_body_def
  startReplicate_def sleep_def sleepTime_def tick_def Let_def

lemma loop_iteration_hd: "s \<in> set (fst (loop_iteration cfg env s))"
  by (simp add: loop_iteration_def Let_def split: prod.splits)

lemma scenario_head_1000:
  "loop_head 1000 scenario_config quiet_environment (initial_state scenario_config) = Some idle_1000"
  using idle_passes [of "initial_state scenario_config" 1000 quiet_environment scenario_config]
  by (simp add: initial_state_def initial_table quiet_environment_def idle_1000_def)

lemma scenario_head_1002:
  "loop_head 1002 scenario_config quiet_environment (initial_state scenario_config) = Some both_running"
proof -
  have "loop_head (Suc (Suc 0)) scenario_config quiet_environment idle_1000 = Some both_running"
    by (simp add: pass_simps scenario_config_def quiet_environment_def idle_1000_def both_running_def)
  then show ?thesis
    using loop_head_add [of 1000 2 scenario_config quiet_environment "initial_state scenario_config"]
      scenario_head_1000
    by (simp add: numeral_2_eq_2)
qed

theorem running_never_exceeds_max_witness:
  "0 \<le> getMaxSimultaneousReplicates scenario_config
   \<and> loop_head 1002 scenario_config quiet_environment (initial_state scenario_config)
       = Some both_running
   \<and> assignedSimulations both_running = 2
   \<and> assignedSimulations both_running \<le> getMaxSimultaneousReplicates scenario_config
   \<and> int (length (runningReplicates both_running)) \<le> getMaxSimultaneousReplicates scenario_config
   \<and> int (card {r. simulationStatusTable both_running r = 1})
       \<le> getMaxSimultaneousReplicates scenario_config"
proof -
  have h0: "0 \<le> getMaxSimultaneousReplicates scenario_config"
    by (simp add: scenario_config_def)
  have "assignedSimulations both_running = 2"
    by (simp add: both_running_def)
  with running_never_exceeds_max [OF h0 scenario_head_1002 loop_iteration_hd] h0 scenario_head_1002
  show ?thesis by simp
qed

theorem status_only_moves_forward_witness:
  "loop_head 1000 scenario_config quiet_environment (initial_state scenario_config) = Some idle_1000
   \<and> simulationStatusTable (initial_state scenario_config) 0 = 0
   \<and> successively forward (fst (loop_iteration scenario_config quiet_environment idle_1000))
   \<and> simulationStatusTable (last (fst (loop_iteration scenario_config quiet_environment idle_1000))) 0 = 1"
proof -
  have "simulationStatusTable (last (fst (loop_iteration scenario_config quiet_environment idle_1000))) 0 = 1"
    by (simp add: pass_simps scenario_config_def quiet_environment_def idle_1000_def)
  with status_only_moves_forward [OF scenario_head_1000] scenario_head_1000
  show ?thesis by simp
qed

theorem abort_stops_scheduling_witness:
  "globalAbort aborting_environment (clock (both_running\<lparr>clock := 1006\<rparr>))
   \<and> first_pending scenario_config (both_running\<lparr>clock := 1006\<rparr>) = Some 2
   \<and> run_from (Suc 0) scenario_config aborting_environment (both_running\<lparr>clock := 1006\<rparr>)
       = Some (None, shutdown aborting_environment (tick (both_running\<lparr>clock := 1006\<rparr>)))
   \<and> events (shutdown aborting_environment (tick (both_running\<lparr>clock := 1006\<rparr>)))
       = [Started 0, Started 1, StopCheckpointing, AbortWorkers, FileClosed]
   \<and> simulationStatusTable (shutdown aborting_environment (tick (both_running\<lparr>clock := 1006\<rparr>))) 2 = 0"
proof -
  have mono: "\<forall>t t'. t \<le> t' \<longrightarrow> globalAbort aborting_environment t \<longrightarrow> globalAbort aborting_environment t'"
    by (simp add: aborting_environment_def)
  have set: "globalAbort aborting_environment (clock (both_running\<lparr>clock := 1006\<rparr>))"
    by (simp add: aborting_environment_def)
  have "first_pending scenario_config (both_running\<lparr>clock := 1006\<rparr>) = Some 2"
    by (simp add: first_pending_def scenario_config_def both_running_def)
  with abort_stops_scheduling [OF mono set, of scenario_config 0] set
  show ?thesis by (simp add: both_running_def)
qed

text \<open>
  C3, as stated, fails in the pass during which the flag is set. The loop reaches pass
  1000 with every replicate pending; its condition reads the flag unset (observation
  1000); the flag is set at observation 1001; the scan then picks replicate 0 and the
  start statement runs in a state where the flag reads set, leaving replicate 0 Running.
\<close>

theorem abort_set_during_pass_counterexample:
  "loop_head 1000 scenario_config late_abort_environment (initial_state scenario_config)
     = Some idle_1000
   \<and> \<not> globalAbort late_abort_environment (clock idle_1000)
   \<and> first_pending scenario_config idle_1000 = Some 0
   \<and> snd (loop_iteration scenario_config late_abort_environment idle_1000) = Continue
   \<and> globalAbort late_abort_environment
        (clock (fst (loop_iteration scenario_config late_abort_environment idle_1000) ! 3))
   \<and> events (fst (loop_iteration scenario_config late_abort_environment idle_1000) ! 3) = []
   \<and> simulationStatusTable
        (fst (loop_iteration scenario_config late_abort_environment idle_1000) ! 3) 0 = 0
   \<and> events (fst (loop_iteration scenario_config late_abort_environment idle_1000) ! 4)
       = [Started 0]
   \<and> simulationStatusTable
        (last (fst (loop_iteration scenario_config late_abort_environment idle_1000))) 0 = 1
   \<and> runningReplicates
        (last (fst (loop_iteration scenario_config late_abort_environment idle_1000))) = [0]"
proof -
  have head: "loop_head 1000 scenario_config late_abort_environment (initial_state scenario_config)
     = Some idle_1000"
    using idle_passes [of "initial_state scenario_config" 1000 late_abort_environment scenario_config]
    by (simp add: initial_state_def initial_table late_abort_environment_def
        quiet_environment_def idle_1000_def)
  have pending: "first_pending scenario_config idle_1000 = Some 0"
    by (simp add: first_pending_def scenario_config_def idle_1000_def)
  have pass: "loop_iteration scenario_config late_abort_environment idle_1000
     = ([idle_1000,
         idle_1000\<lparr>clock := 1001, noopLoopCycles := 1001\<rparr>,
         idle_1000\<lparr>clock := 1001, noopLoopCycles := 1001\<rparr>,
         idle_1000\<lparr>clock := 1001, noopLoopCycles := 1001\<rparr>,
         idle_1000\<lparr>clock := 1002, noopLoopCycles := 1001, runningReplicates := [0],
                    events := [Started 0]\<rparr>,
         idle_1000\<lparr>clock := 1002, noopLoopCycles := 1001, runningReplicates := [0],
                    events := [Started 0], assignedSimulations := 1\<rparr>,
         idle_1000\<lparr>clock := 1002, noopLoopCycles := 1001, runningReplicates := [0],
                    events := [Started 0], assignedSimulations := 1,
                    simulationStatusTable := (\<lambda>_. 0)(0 := 1)\<rparr>],
        Continue)"
    by (simp add: pass_simps scenario_config_def late_abort_environment_def
        quiet_environment_def idle_1000_def)
  show ?thesis
    unfolding pass using head pending
    by (simp add: late_abort_environment_def idle_1000_def)
qed

theorem zero_capacity_is_fatal_witness:
  "getMaxSimultaneousReplicates (scenario_config\<lparr>getMaxSimultaneousReplicates := 0\<rparr>) = 0
   \<and> executeSimulation 5000 (scenario_config\<lparr>getMaxSimultaneousReplicates := 0\<rparr>) quiet_environment
       = Some (Some InvalidConfiguration, initial_state (scenario_config\<lparr>getMaxSimultaneousReplicates := 0\<rparr>))
   \<and> main 5000 (scenario_config\<lparr>getMaxSimultaneousReplicates := 0\<rparr>) quiet_environment = Some (- 1)"
  using zero_capacity_is_fatal [of "scenario_config\<lparr>getMaxSimultaneousReplicates := 0\<rparr>" 5000 quiet_environment]
  by (simp add: quiet_environment_def scenario_config_def)

theorem first_pending_replicate_is_started_witness:
  "first_pending scenario_config one_finished = Some 2
   \<and> new_events one_finished (last (fst (loop_iteration scenario_config quiet_environment one_finished)))
       = [Started 2]
   \<and> successively (start_rule scenario_config)
        (fst (loop_iteration scenario_config quiet_environment one_finished))"
proof -
  have "first_pending scenario_config one_finished = Some 2"
    by (simp add: first_pending_def scenario_config_def one_finished_def)
  moreover have "new_events one_finished (last (fst (loop_iteration scenario_config quiet_environment one_finished)))
       = [Started 2]"
    by (simp add: pass_simps new_events_def scenario_config_def quiet_environment_def one_finished_def)
  ultimately show ?thesis
    using first_pending_replicate_is_started [of scenario_config one_finished quiet_environment]
    by simp
qed

lemma scheduling_loop_add:
  "loop_head m cfg env s = Some s' \<Longrightarrow>
     scheduling_loop (m + n) cfg env s = scheduling_loop n cfg env s'"
  by (induction m arbitrary: s) (auto split: prod.splits outcome.splits)

lemma single_head_1001:
  "loop_head 1001 single_config failing_environment (initial_state single_config) = Some single_started"
proof -
  let ?i = "(initial_state single_config)\<lparr>clock := 1000, noopLoopCycles := 1000\<rparr>"
  have "loop_head 1000 single_config failing_environment (initial_state single_config) = Some ?i"
    using idle_passes [of "initial_state single_config" 1000 failing_environment single_config]
    by (simp add: initial_state_def failing_environment_def quiet_environment_def)
  moreover have "loop_head (Suc 0) single_config failing_environment ?i = Some single_started"
    by (simp add: pass_simps initial_state_def single_config_def scenario_config_def
        failing_environment_def quiet_environment_def single_started_def)
  ultimately show ?thesis
    using loop_head_add [of 1000 1 single_config failing_environment "initial_state single_config"]
    by simp
qed

lemma single_reaping_pass:
  "snd (loop_iteration single_config failing_environment single_started) = Continue"
  "last (fst (loop_iteration single_config failing_environment single_started)) = single_reaped"
  by (simp_all add: pass_simps single_config_def scenario_config_def failing_environment_def
      quiet_environment_def single_started_def single_reaped_def)

lemma single_idle:
  "loop_head 1000 single_config failing_environment single_reaped
     = Some (single_reaped\<lparr>clock := 2004, noopLoopCycles := 1000\<rparr>)"
  using idle_passes [of single_reaped 1000 failing_environment single_config]
  by (simp add: single_reaped_def failing_environment_def quiet_environment_def)

lemma single_last_pass:
  "loop_iteration single_config failing_environment (single_reaped\<lparr>clock := 2004, noopLoopCycles := 1000\<rparr>)
     = ([single_reaped\<lparr>clock := 2004, noopLoopCycles := 1000\<rparr>, single_done, single_done, single_done],
        Break)"
  by (simp add: pass_simps single_config_def scenario_config_def failing_environment_def
      quiet_environment_def single_reaped_def single_done_def)

lemma single_after_reap:
  "scheduling_loop 1000 single_config failing_environment single_reaped = None"
  "scheduling_loop 1001 single_config failing_environment single_reaped = Some (Break, single_done)"
  using scheduling_loop_add [OF single_idle, of 0] scheduling_loop_add [OF single_idle, of "Suc 0"]
  by (simp_all add: single_last_pass)

lemma single_head_reaped:
  "loop_head (Suc 0) single_config failing_environment single_started = Some single_reaped"
proof -
  obtain tr oc where li: "loop_iteration single_config failing_environment single_started = (tr, oc)"
    by (cases "loop_iteration single_config failing_environment single_started")
  with single_reaping_pass have "oc = Continue" and "last tr = single_reaped"
    by simp_all
  with li show ?thesis by simp
qed

lemma single_run:
  "scheduling_loop 2003 single_config failing_environment (initial_state single_config)
     = Some (Break, single_done)"
proof -
  have "scheduling_loop (1 + 1001) single_config failing_environment single_started
          = Some (Break, single_done)"
    using scheduling_loop_add [of "Suc 0" single_config failing_environment single_started
        single_reaped 1001] single_head_reaped single_after_reap(2)
    by simp
  then show ?thesis
    using scheduling_loop_add [OF single_head_1001, of 1002] by simp
qed

theorem completion_detected_after_idle_passes_witness:
  "Completed 0 3 \<in> set (new_events single_started
       (last (fst (loop_iteration single_config failing_environment single_started))))
   \<and> snd (loop_iteration single_config failing_environment single_started) = Continue
   \<and> noopLoopCycles (last (fst (loop_iteration single_config failing_environment single_started))) = 0
   \<and> scheduling_loop 1000 single_config failing_environment
        (last (fst (loop_iteration single_config failing_environment single_started)))
       \<noteq> Some (Break, single_done)
   \<and> scheduling_loop 1001 single_config failing_environment
        (last (fst (loop_iteration single_config failing_environment single_started)))
       = Some (Break, single_done)
   \<and> 1000 < noopLoopCycles single_done"
proof -
  have c: "Completed 0 3 \<in> set (new_events single_started
       (last (fst (loop_iteration single_config failing_environment single_started))))"
    unfolding single_reaping_pass
    by (simp add: new_events_def single_started_def single_reaped_def)
  have p: "loop_iteration single_config failing_environment single_started
             = (fst (loop_iteration single_config failing_environment single_started),
                snd (loop_iteration single_config failing_environment single_started))"
    by simp
  have "1000 < noopLoopCycles single_done"
    by (simp add: single_done_def single_reaped_def)
  with completion_detected_after_idle_passes [OF p, of 0 3] c single_after_reap(2)
  show ?thesis
    by (simp add: single_reaping_pass)
qed

subsection \<open>The exit codes of the replicates do not steer the loop\<close>

lemma pop_codes:
  "popNextFinishedReplicate (env\<lparr>getReplicateExitCode := codes\<rparr>) t rs
     = popNextFinishedReplicate env t rs"
  by (induction rs arbitrary: t) simp_all

lemma reap_body_ctl:
  "ctl s' = ctl s \<Longrightarrow>
     map ctl (reap_body (env\<lparr>getReplicateExitCode := codes\<rparr>) r rs t s')
       = map ctl (reap_body env r rs t s)"
  by (simp add: reap_body_def Let_def ctl_def)

lemma reap_loop_ctl:
  "ctl s' = ctl s \<Longrightarrow>
     map ctl (reap_loop (env\<lparr>getReplicateExitCode := codes\<rparr>) s') = map ctl (reap_loop env s)"
proof (induction "length (runningReplicates s)" arbitrary: s s' rule: less_induct)
  case less
  let ?env' = "env\<lparr>getReplicateExitCode := codes\<rparr>"
  from less.prems have same: "clock s' = clock s" "runningReplicates s' = runningReplicates s"
    by (simp_all add: ctl_def)
  obtain f rs t where pop: "popNextFinishedReplicate env (clock s) (runningReplicates s) = (f, rs, t)"
    by (cases "popNextFinishedReplicate env (clock s) (runningReplicates s)")
  then have pop': "popNextFinishedReplicate ?env' (clock s') (runningReplicates s') = (f, rs, t)"
    by (simp add: pop_codes same)
  show ?case
  proof (cases f)
    case None
    with pop pop' have "reap_loop env s = [s, s\<lparr>clock := t\<rparr>]"
      and "reap_loop ?env' s' = [s', s'\<lparr>clock := t\<rparr>]"
      by (simp_all add: reap_loop_None)
    with less.prems show ?thesis
      by (simp add: ctl_def)
  next
    case (Some r)
    let ?b = "reap_body env r rs t s"
    let ?b' = "reap_body ?env' r rs t s'"
    from Some pop pop' have rl: "reap_loop env s = s # ?b @ reap_loop env (last ?b)"
      and rl': "reap_loop ?env' s' = s' # ?b' @ reap_loop ?env' (last ?b')"
      by (simp_all add: reap_loop_Some)
    have mb: "map ctl ?b' = map ctl ?b"
      by (rule reap_body_ctl [OF less.prems])
    then have "last (map ctl ?b') = last (map ctl ?b)"
      by simp
    then have lb: "ctl (last ?b') = ctl (last ?b)"
      by (simp add: last_map reap_body_last)
    from Some pop pop_Some [of env "clock s" "runningReplicates s" r rs t]
    have "length rs < length (runningReplicates s)"
      by auto
    then have "length (runningReplicates (last ?b)) < length (runningReplicates s)"
      by (simp add: reap_body_last)
    from less.hyps [OF this lb] mb less.prems show ?thesis
      unfolding rl rl' by simp
  qed
qed

lemma reap_loop_last_ctl:
  "ctl s' = ctl s \<Longrightarrow>
     ctl (last (reap_loop (env\<lparr>getReplicateExitCode := codes\<rparr>) s')) = ctl (last (reap_loop env s))"
proof -
  assume "ctl s' = ctl s"
  then have "last (map ctl (reap_loop (env\<lparr>getReplicateExitCode := codes\<rparr>) s'))
               = last (map ctl (reap_loop env s))"
    by (simp add: reap_loop_ctl)
  then show ?thesis
    by (simp add: last_map reap_loop_not_Nil)
qed

lemma start_or_sleep_ctl:
  assumes "ctl s' = ctl s"
  shows "snd (start_or_sleep cfg (env\<lparr>getReplicateExitCode := codes\<rparr>) s') = snd (start_or_sleep cfg env s)
         \<and> ctl (last (fst (start_or_sleep cfg (env\<lparr>getReplicateExitCode := codes\<rparr>) s')))
             = ctl (last (fst (start_or_sleep cfg env s)))"
  using assms
  by (auto simp: start_or_sleep_def sleep_def start_body_def startReplicate_def tick_def Let_def ctl_def
      split: prod.splits sum.splits)

lemma loop_iteration_ctl:
  assumes "ctl s' = ctl s"
  shows "snd (loop_iteration cfg (env\<lparr>getReplicateExitCode := codes\<rparr>) s') = snd (loop_iteration cfg env s)
         \<and> ctl (last (fst (loop_iteration cfg (env\<lparr>getReplicateExitCode := codes\<rparr>) s')))
             = ctl (last (fst (loop_iteration cfg env s)))"
proof -
  let ?env' = "env\<lparr>getReplicateExitCode := codes\<rparr>"
  let ?s1 = "(tick s)\<lparr>noopLoopCycles := noopLoopCycles s + 1\<rparr>"
  let ?s1' = "(tick s')\<lparr>noopLoopCycles := noopLoopCycles s' + 1\<rparr>"
  let ?l = "last (reap_loop env ?s1)"
  let ?l' = "last (reap_loop ?env' ?s1')"
  from assms have c1: "ctl ?s1' = ctl ?s1" and ck: "clock s' = clock s" and ct: "ctl (tick s') = ctl (tick s)"
    by (simp_all add: ctl_def tick_def)
  have l: "ctl ?l' = ctl ?l"
    by (rule reap_loop_last_ctl [OF c1])
  then have n: "noopLoopCycles ?l' = noopLoopCycles ?l"
    by (simp add: ctl_def)
  show ?thesis
  proof (cases "globalAbort env (clock s)")
    case True
    with ck ct show ?thesis
      by (simp add: loop_iteration_def)
  next
    case False
    show ?thesis
    proof (cases "1000 < noopLoopCycles ?l")
      case no: False
      with False ck n l show ?thesis
        by (simp add: loop_iteration_def Let_def reap_loop_not_Nil)
    next
      case yes: True
      obtain tr oc where sos: "start_or_sleep cfg env ?l = (tr, oc)"
        by (cases "start_or_sleep cfg env ?l")
      obtain tr' oc' where sos': "start_or_sleep cfg ?env' ?l' = (tr', oc')"
        by (cases "start_or_sleep cfg ?env' ?l'")
      from start_or_sleep_ctl [OF l, where cfg = cfg and env = env and codes = codes] sos sos'
      have "oc' = oc" and "ctl (last tr') = ctl (last tr)"
        by simp_all
      moreover from start_or_sleep_hd [of cfg env ?l] start_or_sleep_hd [of cfg ?env' ?l'] sos sos'
      have "tr \<noteq> []" and "tr' \<noteq> []"
        by simp_all
      ultimately show ?thesis
        using False yes ck n sos sos'
        by (simp add: loop_iteration_def Let_def)
    qed
  qed
qed

lemma scheduling_loop_ctl:
  "ctl s' = ctl s \<Longrightarrow>
     map_option (\<lambda>(oc, x). (oc, ctl x)) (scheduling_loop n cfg (env\<lparr>getReplicateExitCode := codes\<rparr>) s')
       = map_option (\<lambda>(oc, x). (oc, ctl x)) (scheduling_loop n cfg env s)"
proof (induction n arbitrary: s s')
  case 0
  show ?case by simp
next
  case (Suc n)
  let ?env' = "env\<lparr>getReplicateExitCode := codes\<rparr>"
  obtain tr oc where li: "loop_iteration cfg env s = (tr, oc)"
    by (cases "loop_iteration cfg env s")
  obtain tr' oc' where li': "loop_iteration cfg ?env' s' = (tr', oc')"
    by (cases "loop_iteration cfg ?env' s'")
  from loop_iteration_ctl [OF Suc.prems, where cfg = cfg and env = env and codes = codes] li li'
  have oc: "oc' = oc" and l: "ctl (last tr') = ctl (last tr)"
    by simp_all
  show ?case
  proof (cases "oc = Continue")
    case True
    with li li' oc Suc.IH [OF l] show ?thesis by simp
  next
    case False
    with li li' oc l show ?thesis
      by (cases oc) simp_all
  qed
qed

lemma executeSimulation_codes:
  "map_option fst (executeSimulation fuel cfg (env\<lparr>getReplicateExitCode := codes\<rparr>))
     = map_option fst (executeSimulation fuel cfg env)"
proof -
  let ?env' = "env\<lparr>getReplicateExitCode := codes\<rparr>"
  let ?i = "initial_state cfg"
  have "map_option (\<lambda>(oc, x). (oc, ctl x)) (scheduling_loop fuel cfg ?env' ?i)
          = map_option (\<lambda>(oc, x). (oc, ctl x)) (scheduling_loop fuel cfg env ?i)"
    by (rule scheduling_loop_ctl) simp
  then have "map_option fst (run_from fuel cfg ?env' ?i) = map_option fst (run_from fuel cfg env ?i)"
    by (cases "scheduling_loop fuel cfg ?env' ?i"; cases "scheduling_loop fuel cfg env ?i")
       (auto simp: run_from_def split: outcome.splits)
  then show ?thesis
    by (simp add: executeSimulation_def split: sum.splits)
qed

text \<open>
  C8. In a run of the simulation function, main returns 0 when executeSimulation returns
  and \<open>-1\<close> when an exception leaves it, and what main returns is the same whatever the
  exit codes of the replicates are: the reap of a replicate writes its exit code in the
  log line and sets its status to Finished (2), whatever the code.
\<close>

theorem exit_code_of_process:
  assumes "functionOption cfg = ''simulation''"
  shows "(executeSimulation fuel cfg env = Some (None, s) \<longrightarrow> main fuel cfg env = Some 0)
         \<and> (executeSimulation fuel cfg env = Some (Some e, s) \<longrightarrow> main fuel cfg env = Some (- 1))
         \<and> main fuel cfg (env\<lparr>getReplicateExitCode := codes\<rparr>) = main fuel cfg env
         \<and> events (last (reap_body env r rs t s0))
             = events s0 @ [Completed r (getReplicateExitCode env r)]
         \<and> simulationStatusTable (last (reap_body env r rs t s0)) r = 2"
  using assms executeSimulation_codes [where fuel = fuel and cfg = cfg and env = env and codes = codes]
  by (simp add: main_def main_try_def reap_body_def Let_def)

theorem exit_code_of_process_witness:
  "functionOption single_config = ''simulation''
   \<and> executeSimulation 2003 single_config failing_environment
       = Some (None, shutdown failing_environment single_done)
   \<and> Completed 0 3 \<in> set (events (shutdown failing_environment single_done))
   \<and> main 2003 single_config failing_environment = Some 0
   \<and> executeSimulation 2003 single_config (failing_environment\<lparr>setupThrows := True\<rparr>)
       = Some (Some SetupFailure, initial_state single_config)
   \<and> main 2003 single_config (failing_environment\<lparr>setupThrows := True\<rparr>) = Some (- 1)"
proof -
  have f: "functionOption single_config = ''simulation''"
    by (simp add: single_config_def scenario_config_def)
  have ok: "executeSimulation 2003 single_config failing_environment
       = Some (None, shutdown failing_environment single_done)"
  proof -
    have "\<not> setupThrows failing_environment" and "\<not> loadThrows failing_environment"
      and "getMaxSimultaneousReplicates single_config \<noteq> 0"
      by (simp_all add: failing_environment_def quiet_environment_def single_config_def)
    then show ?thesis
      using single_run
      by (simp add: executeSimulation_def run_from_def inject_parameters_eq)
  qed
  have ko: "executeSimulation 2003 single_config (failing_environment\<lparr>setupThrows := True\<rparr>)
       = Some (Some SetupFailure, initial_state single_config)"
    by (simp add: executeSimulation_def)
  have "Completed 0 3 \<in> set (events (shutdown failing_environment single_done))"
    by (simp add: shutdown_def Let_def tick_def single_done_def single_reaped_def)
  with exit_code_of_process [OF f, where fuel = 2003 and env = failing_environment
        and s = "shutdown failing_environment single_done"]
    exit_code_of_process [OF f, where fuel = 2003
        and env = "failing_environment\<lparr>setupThrows := True\<rparr>"
        and s = "initial_state single_config" and e = SetupFailure]
    f ok ko
  show ?thesis by simp
qed

end
